theory Spec2Isabelle
  imports Main
begin

text \<open>
  The module \<^verbatim>\<open>lib/repeater-content.js\<close> of the abbreviation expander: the repeat
  expander \<^verbatim>\<open>prepare\<close>, the content distributor \<^verbatim>\<open>insert\<close> with its helpers,
  and the default export that runs the one after the other. The functions are
  embedded as functions on trees: a function that changes a node in place becomes a
  function that returns the node after the change, and a function that can throw
  returns the error with the node as the throw leaves it.
\<close>

section \<open>Abbreviation tree\<close>

text \<open>
  The repeat directive of a node, \<^verbatim>\<open>{count, implicit, value, index}\<close>.
  \<open>count = None\<close> is the JavaScript \<^verbatim>\<open>null\<close>: the count is not known yet.
\<close>

record repeat_state =
  count :: "nat option"
  implicit :: bool
  rvalue :: nat
  index :: nat

text \<open>
  A node of the parsed abbreviation. \<open>name\<close> is the tag name, \<^verbatim>\<open>null\<close>
  (\<open>None\<close>) on a node without a name, as the root of a parsed abbreviation and a
  text node are; \<open>nvalue\<close> is the field \<^verbatim>\<open>value\<close> (a string or \<^verbatim>\<open>null\<close>),
  \<open>attributes\<close> the ordered name/value pairs, \<open>repeat\<close> is absent (\<open>None\<close>) on
  a node that is not repeated. The parent link is navigational only and is
  determined by the position of a node in the tree.
\<close>

datatype node =
  Node (name: "string option") (nvalue: "string option")
       (attributes: "(string \<times> string option) list")
       (children: "node list") (repeat: "repeat_state option")

fun set_value :: "node \<Rightarrow> string option \<Rightarrow> node" where
  "set_value (Node n v a ch r) v' = Node n v' a ch r"

fun set_attributes :: "node \<Rightarrow> (string \<times> string option) list \<Rightarrow> node" where
  "set_attributes (Node n v a ch r) a' = Node n v a' ch r"

fun set_children :: "node \<Rightarrow> node list \<Rightarrow> node" where
  "set_children (Node n v a ch r) ch' = Node n v a ch' r"

fun set_repeat :: "node \<Rightarrow> repeat_state option \<Rightarrow> node" where
  "set_repeat (Node n v a ch r) r' = Node n v a ch r'"

text \<open>All nodes of a subtree in document order, the root of the subtree first.\<close>

fun nodes_of :: "node \<Rightarrow> node list" where
  "nodes_of (Node n v a ch r) = Node n v a ch r # concat (map nodes_of ch)"

text \<open>Every descendant of a node, not the node itself.\<close>

definition descendants :: "node \<Rightarrow> node list" where
  "descendants t = concat (map nodes_of (children t))"

lemma nodes_of_self [simp]: "nd \<in> set (nodes_of nd)"
  by (cases nd) simp

lemma nodes_of_children:
  "set (nodes_of nd) = insert nd (set (concat (map nodes_of (children nd))))"
  by (cases nd) simp

lemma children_set_value [simp]: "children (set_value nd v) = children nd"
  by (cases nd) simp

lemma children_set_attributes [simp]: "children (set_attributes nd a) = children nd"
  by (cases nd) simp

lemma children_set_children [simp]: "children (set_children nd ch) = ch"
  by (cases nd) simp

lemma set_children_same [simp]: "set_children nd (children nd) = nd"
  by (cases nd) simp

lemma attributes_set_attributes [simp]: "attributes (set_attributes nd a) = a"
  by (cases nd) simp

lemma attributes_set_value [simp]: "attributes (set_value nd v) = attributes nd"
  by (cases nd) simp

lemma set_attributes_twice [simp]: "set_attributes (set_attributes nd a) b = set_attributes nd b"
  by (cases nd) simp

lemma children_smaller: "size_list size (children nd) < size nd"
  by (cases nd) simp

lemma size_child: "c \<in> set (children nd) \<Longrightarrow> size c < size nd"
  by (cases nd) (auto simp: less_Suc_eq_le size_list_estimation')

text \<open>The error that reading a property of \<^verbatim>\<open>null\<close> throws.\<close>

datatype error = TypeError

section \<open>Repeat expander\<close>

text \<open>
  The place of a node among its siblings while the callback of a walk runs on it:
  the siblings before the node, in order, and the node. The siblings after the node
  are not touched by the callbacks of this module and stay with the walk.
\<close>

type_synonym place = "node list \<times> node"

text \<open>
  Modelled from the spec: \<^verbatim>\<open>clone\<close>, \<^verbatim>\<open>insertBefore\<close> and \<^verbatim>\<open>remove\<close> are
  methods of the tree collaborator, whose code is not part of the sources. Sections
  3, 4.1 and 6 of the specification: \<^verbatim>\<open>clone(true)\<close> is a deep copy that shares
  nothing with the node, which for trees as values is the node itself;
  \<^verbatim>\<open>parent.insertBefore(new, node)\<close> puts the new node among the siblings,
  immediately before the node; \<^verbatim>\<open>node.remove()\<close> takes the node out of the child
  list of its parent, so that the siblings are left.
\<close>

definition clone :: "node \<Rightarrow> node" where
  "clone nd = nd"

definition insertBefore :: "node \<Rightarrow> place \<Rightarrow> place" where
  "insertBefore new p = (fst p @ [new], snd p)"

definition remove :: "place \<Rightarrow> node list" where
  "remove p = fst p"

text \<open>\<^verbatim>\<open>node.repeat && node.repeat.count === null\<close>\<close>

definition unresolved :: "node \<Rightarrow> bool" where
  "unresolved nd = (case repeat nd of None \<Rightarrow> False | Some r \<Rightarrow> count r = None)"

text \<open>
  The four assignments to the repeat state of a clone in the loop of \<^verbatim>\<open>prepare\<close>.
\<close>

definition resolved_clone :: "nat \<Rightarrow> nat \<Rightarrow> node \<Rightarrow> node" where
  "resolved_clone amount i c =
     set_repeat c
       (Some \<lparr>count = Some amount, implicit = True, rvalue = i + 1, index = i\<rparr>)"

text \<open>
  The loop \<^verbatim>\<open>for (let i = 0; i < amount; i++)\<close> of the callback of \<^verbatim>\<open>prepare\<close>,
  from \<open>i\<close> on: a clone of the node is made, its repeat state is set, and it is
  inserted before the node.
\<close>

function clone_loop :: "nat \<Rightarrow> nat \<Rightarrow> place \<Rightarrow> place" where
  "clone_loop amount i p =
     (if i < amount
      then clone_loop amount (i + 1) (insertBefore (resolved_clone amount i (clone (snd p))) p)
      else p)"
  by pat_completeness auto
termination
  by (relation "measure (\<lambda>(amount, i, p). amount - i)") auto

declare clone_loop.simps [simp del]

text \<open>
  The callback of the walk of \<^verbatim>\<open>prepare\<close>, on a node at its place. The result is
  the siblings before the node after the call, and the node when it is still in the
  tree: an unresolved node is removed after the loop.
\<close>

definition prepare_visit :: "nat \<Rightarrow> place \<Rightarrow> node list \<times> node option" where
  "prepare_visit amount p =
     (if unresolved (snd p) then (remove (clone_loop amount 0 p), None)
      else (fst p, Some (snd p)))"

lemma prepare_visit_kept: "prepare_visit amount (before, ctx) = (before', Some ctx') \<Longrightarrow> ctx' = ctx"
  by (simp add: prepare_visit_def split: if_splits)

text \<open>
  Modelled from the spec: \<^verbatim>\<open>walk\<close> is a method of the tree collaborator, whose
  code is not part of the sources. It is the walk of sections 6 and 9 of the
  specification, driven by a callback that changes the structure the walk goes
  through: the walk starts at the first child, takes the sibling that follows the
  current node, calls the callback on the current node, walks the children of the
  current node, and goes on with the sibling it took. So a node that the callback
  inserts before the current node is never visited, and neither are its
  descendants; the children of a node that the callback has removed are walked
  outside the tree, which leaves the tree as it is.

  \<open>prepare_siblings amount before todo\<close> is the walk of \<^verbatim>\<open>prepare\<close> in a child
  list, with the siblings \<open>before\<close> behind it and the siblings \<open>todo\<close> ahead; the
  result is the child list after the walk.
\<close>

function prepare_siblings :: "nat \<Rightarrow> node list \<Rightarrow> node list \<Rightarrow> node list" where
  "prepare_siblings amount before [] = before"
| "prepare_siblings amount before (ctx # next) =
     (case prepare_visit amount (before, ctx) of
        (before', None) \<Rightarrow> prepare_siblings amount before' next
      | (before', Some ctx') \<Rightarrow>
          prepare_siblings amount
            (before' @ [set_children ctx' (prepare_siblings amount [] (children ctx'))]) next)"
  by pat_completeness auto
termination
proof (relation "measure (\<lambda>(amount, before, todo). size_list size todo)", goal_cases)
  case 1
  show ?case by simp
next
  case (2 amount before ctx "next" x y)
  show ?case by simp
next
  case (3 amount before ctx "next" x y ctx')
  then have "ctx' = ctx"
    using prepare_visit_kept [of amount before ctx x ctx'] by simp
  then show ?case
    using children_smaller [of ctx] by simp
next
  case (4 amount before ctx "next" x y ctx')
  show ?case by simp
qed

text \<open>\<^verbatim>\<open>parent.walk(callback)\<close> in \<^verbatim>\<open>prepare\<close>, on a parent with the children \<open>cs\<close>.\<close>

definition prepare_walk :: "nat \<Rightarrow> node list \<Rightarrow> node list" where
  "prepare_walk amount cs = prepare_siblings amount [] cs"

text \<open>\<^verbatim>\<open>amount = amount || 1\<close>: zero stands for a missing amount.\<close>

definition prepare :: "node \<Rightarrow> nat \<Rightarrow> node" where
  "prepare tree amount =
     (let amount = (if amount = 0 then 1 else amount)
      in set_children tree (prepare_walk amount (children tree)))"

section \<open>Token scanner\<close>

text \<open>The placeholder for inserted content and the placeholder for the caret.\<close>

definition placeholder :: string where
  "placeholder = ''$#''"

definition caret :: string where
  "caret = ''|''"

text \<open>The escape marker of the token scanner, the backslash.\<close>

definition escape :: char where
  "escape = CHR 0x5C"

text \<open>
  Modelled from the spec: \<^verbatim>\<open>findUnescapedTokens\<close> is imported from the module
  \<^verbatim>\<open>./utils\<close>, which is not part of the sources. Section 4.5 of the
  specification: the string is scanned from left to right; an occurrence of the token
  that is immediately preceded by the escape marker is skipped as a match; the result
  is the list of the ranges \<open>(start, end)\<close>, end exclusive, of the other
  occurrences, ascending and not overlapping.

  \<open>scan_tokens token esc pos s\<close> scans the rest \<open>s\<close> of the string, which starts
  at offset \<open>pos\<close>; \<open>esc\<close> tells that the character before \<open>s\<close> is the
  escape marker.
\<close>

function scan_tokens :: "string \<Rightarrow> bool \<Rightarrow> nat \<Rightarrow> string \<Rightarrow> (nat \<times> nat) list" where
  "scan_tokens token esc pos s =
     (if s = [] then []
      else if token \<noteq> [] \<and> take (length token) s = token then
        (if esc then scan_tokens token False (pos + length token) (drop (length token) s)
         else (pos, pos + length token)
                # scan_tokens token False (pos + length token) (drop (length token) s))
      else scan_tokens token (hd s = escape) (pos + 1) (tl s))"
  by pat_completeness auto
termination
  by (relation "measure (\<lambda>(token, esc, pos, s). length s)") auto

declare scan_tokens.simps [simp del]

text \<open>
  Modelled from the spec: \<^verbatim>\<open>findUnescapedTokens(str, token)\<close> of \<^verbatim>\<open>./utils\<close>,
  the scan of the whole string.
\<close>

definition findUnescapedTokens :: "string \<Rightarrow> string \<Rightarrow> (nat \<times> nat) list" where
  "findUnescapedTokens str token = scan_tokens token False 0 str"

text \<open>
  Modelled from the spec: \<^verbatim>\<open>replaceRanges\<close> is imported from \<^verbatim>\<open>./utils\<close>
  as well. Section 4.5: every range is replaced with the value, and the escape marker
  before an escaped token elsewhere in the string is stripped; section 9 describes
  one pass from left to right that rebuilds the string. The token is the text of the
  first range.

  \<open>rebuild token v pos rs s\<close> rebuilds the rest \<open>s\<close> of the string, which starts
  at offset \<open>pos\<close>, with the ranges \<open>rs\<close> still to come.
\<close>

function rebuild :: "string \<Rightarrow> string \<Rightarrow> nat \<Rightarrow> (nat \<times> nat) list \<Rightarrow> string \<Rightarrow> string" where
  "rebuild token v pos rs s =
     (if s = [] then []
      else if rs \<noteq> [] \<and> fst (hd rs) = pos then
        v @ rebuild token v (pos + (snd (hd rs) - pos)) (tl rs) (drop (snd (hd rs) - pos) s)
      else if hd s = escape \<and> token \<noteq> [] \<and> take (length token) (tl s) = token then
        token @ rebuild token v (pos + 1 + length token) rs (drop (1 + length token) s)
      else hd s # rebuild token v (pos + 1) rs (tl s))"
  by pat_completeness auto
termination
proof (relation "measure (\<lambda>(token, v, pos, rs, s). length s + length rs)")
  fix token v :: string and pos :: nat and rs :: "(nat \<times> nat) list" and s :: string
  assume "s \<noteq> []" and "rs \<noteq> [] \<and> fst (hd rs) = pos"
  then have "length (tl rs) < length rs"
    by (cases rs) simp_all
  then show "((token, v, pos + (snd (hd rs) - pos), tl rs, drop (snd (hd rs) - pos) s),
              (token, v, pos, rs, s))
             \<in> measure (\<lambda>(token, v, pos, rs, s). length s + length rs)"
    by simp
qed auto

declare rebuild.simps [simp del]

text \<open>
  Modelled from the spec: \<^verbatim>\<open>replaceRanges(str, ranges, value)\<close> of \<^verbatim>\<open>./utils\<close>,
  the pass over the whole string; without a range the string is returned as it is.
\<close>

definition replaceRanges :: "string \<Rightarrow> (nat \<times> nat) list \<Rightarrow> string \<Rightarrow> string" where
  "replaceRanges str ranges v =
     (case ranges of
        [] \<Rightarrow> str
      | r # _ \<Rightarrow> rebuild (take (snd r - fst r) (drop (fst r) str)) v 0 ranges str)"

section \<open>Regular expressions\<close>

text \<open>
  The three patterns of the source use character classes, sequence, alternation and
  repetition only, so \<^verbatim>\<open>test\<close> is membership in a regular language. It is decided
  with derivatives: \<open>deriv c r\<close> matches the strings \<open>s\<close> with \<open>c # s\<close> matched by
  \<open>r\<close>. A class is the string of its characters.
\<close>

datatype rx = Fail | Eps | Cls string | Seq rx rx | Alt rx rx | Star rx

text \<open>The strings that a regular expression matches.\<close>

inductive_set repeated :: "string set \<Rightarrow> string set" for A :: "string set" where
  none: "[] \<in> repeated A"
| more: "u \<in> A \<Longrightarrow> v \<in> repeated A \<Longrightarrow> u @ v \<in> repeated A"

fun lang :: "rx \<Rightarrow> string set" where
  "lang Fail = {}"
| "lang Eps = {[]}"
| "lang (Cls cs) = {w. \<exists>c. c \<in> set cs \<and> w = [c]}"
| "lang (Seq r s) = {w. \<exists>u v. w = u @ v \<and> u \<in> lang r \<and> v \<in> lang s}"
| "lang (Alt r s) = lang r \<union> lang s"
| "lang (Star r) = repeated (lang r)"

text \<open>Whether the expression matches the empty string.\<close>

fun nullable :: "rx \<Rightarrow> bool" where
  "nullable Fail = False"
| "nullable Eps = True"
| "nullable (Cls cs) = False"
| "nullable (Seq r s) = (nullable r \<and> nullable s)"
| "nullable (Alt r s) = (nullable r \<or> nullable s)"
| "nullable (Star r) = True"

text \<open>Sequence and alternation that drop a branch which cannot match.\<close>

definition rx_seq :: "rx \<Rightarrow> rx \<Rightarrow> rx" where
  "rx_seq r s = (if r = Fail \<or> s = Fail then Fail else if r = Eps then s else Seq r s)"

definition rx_alt :: "rx \<Rightarrow> rx \<Rightarrow> rx" where
  "rx_alt r s = (if r = Fail then s else if s = Fail then r else Alt r s)"

fun deriv :: "char \<Rightarrow> rx \<Rightarrow> rx" where
  "deriv c Fail = Fail"
| "deriv c Eps = Fail"
| "deriv c (Cls cs) = (if c \<in> set cs then Eps else Fail)"
| "deriv c (Seq r s) =
     (if nullable r then rx_alt (rx_seq (deriv c r) s) (deriv c s) else rx_seq (deriv c r) s)"
| "deriv c (Alt r s) = rx_alt (deriv c r) (deriv c s)"
| "deriv c (Star r) = rx_seq (deriv c r) (Star r)"

text \<open>A pattern anchored with \<^verbatim>\<open>^\<close> and \<^verbatim>\<open>$\<close>: the whole string matches.\<close>

fun rx_test :: "rx \<Rightarrow> string \<Rightarrow> bool" where
  "rx_test r [] = nullable r"
| "rx_test r (c # s) = rx_test (deriv c r) s"

text \<open>A pattern anchored with \<^verbatim>\<open>^\<close> only: a prefix of the string matches.\<close>

fun rx_test_prefix :: "rx \<Rightarrow> string \<Rightarrow> bool" where
  "rx_test_prefix r [] = nullable r"
| "rx_test_prefix r (c # s) = (nullable r \<or> rx_test_prefix (deriv c r) s)"

fun lit :: "string \<Rightarrow> rx" where
  "lit [] = Eps"
| "lit (c # cs) = Seq (Cls [c]) (lit cs)"

definition rx_opt :: "rx \<Rightarrow> rx" where
  "rx_opt r = Alt r Eps"

definition rx_plus :: "rx \<Rightarrow> rx" where
  "rx_plus r = Seq r (Star r)"

text \<open>\<open>between n m r\<close> is \<^verbatim>\<open>r{n,m}\<close>.\<close>

fun between :: "nat \<Rightarrow> nat \<Rightarrow> rx \<Rightarrow> rx" where
  "between 0 0 r = Eps"
| "between 0 (Suc m) r = rx_opt (Seq r (between 0 m r))"
| "between (Suc n) m r = Seq r (between n (m - 1) r)"

definition digits :: string where
  "digits = ''0123456789''"

definition lowers :: string where
  "lowers = ''abcdefghijklmnopqrstuvwxyz''"

definition uppers :: string where
  "uppers = ''ABCDEFGHIJKLMNOPQRSTUVWXYZ''"

text \<open>\<^verbatim>\<open>\w\<close>\<close>

definition word_chars :: string where
  "word_chars = uppers @ lowers @ digits @ ''_''"

text \<open>\<^verbatim>\<open>/^((?:https?|ftp|file):\/\/)?([\da-z\.-]+)\.([a-z\.]{2,6})([\/\w \.-]*)*\/?$/\<close>\<close>

definition reUrl :: rx where
  "reUrl =
     Seq (rx_opt (Seq (Alt (Seq (lit ''http'') (rx_opt (lit ''s''))) (Alt (lit ''ftp'') (lit ''file'')))
                   (lit ''://'')))
    (Seq (rx_plus (Cls (digits @ lowers @ ''.-'')))
    (Seq (lit ''.'')
    (Seq (between 2 6 (Cls (lowers @ ''.'')))
    (Seq (Star (Star (Cls (''/'' @ word_chars @ '' .-''))))
         (rx_opt (lit ''/''))))))"

text \<open>\<^verbatim>\<open>/^([a-z0-9_\.-]+)@([\da-z\.-]+)\.([a-z\.]{2,6})$/\<close>\<close>

definition reEmail :: rx where
  "reEmail =
     Seq (rx_plus (Cls (lowers @ digits @ ''_.-'')))
    (Seq (lit ''@'')
    (Seq (rx_plus (Cls (digits @ lowers @ ''.-'')))
    (Seq (lit ''.'')
         (between 2 6 (Cls (lowers @ ''.''))))))"

text \<open>\<^verbatim>\<open>/^([a-z]+:)?\/\//i\<close>: the flag \<^verbatim>\<open>i\<close> adds the upper-case letters.\<close>

definition reProto :: rx where
  "reProto = Seq (rx_opt (Seq (rx_plus (Cls (lowers @ uppers))) (lit '':''))) (lit ''//'')"

section \<open>Content distributor\<close>

text \<open>
  A content item read from the list: \<open>None\<close> is \<^verbatim>\<open>undefined\<close>, the result of
  reading an array out of range.
\<close>

definition item :: "string list \<Rightarrow> nat \<Rightarrow> string option" where
  "item content i = (if i < length content then Some (content ! i) else None)"

text \<open>What string concatenation and \<^verbatim>\<open>RegExp.test\<close> make of a content item.\<close>

definition js_string :: "string option \<Rightarrow> string" where
  "js_string v = (case v of None \<Rightarrow> ''undefined'' | Some s \<Rightarrow> s)"

lemma js_string_simps [simp]:
  "js_string (Some s) = s" "js_string None = ''undefined''"
  by (simp_all add: js_string_def)

text \<open>A string value that a condition takes as true: a string that is not empty.\<close>

definition truthy :: "string option \<Rightarrow> bool" where
  "truthy v = (case v of None \<Rightarrow> False | Some s \<Rightarrow> s \<noteq> [])"

text \<open>
  Modelled from the spec: \<^verbatim>\<open>hasAttribute\<close> and \<^verbatim>\<open>setAttribute\<close> are methods
  of the tree collaborator, whose code is not part of the sources. Sections 3 and 6
  of the specification: the attributes are an ordered mapping from names to values
  that keeps the order of insertion, and \<^verbatim>\<open>setAttribute\<close> sets by name: the value
  of a declared attribute is overwritten in place, a new attribute is added at the
  end.
\<close>

definition hasAttribute :: "node \<Rightarrow> string \<Rightarrow> bool" where
  "hasAttribute nd k = (k \<in> set (map fst (attributes nd)))"

text \<open>
  Modelled from the spec: \<^verbatim>\<open>setAttribute(name, value)\<close> of the tree
  collaborator, on the list of attributes and on the node.
\<close>

fun set_by_name :: "string \<Rightarrow> string option \<Rightarrow> (string \<times> string option) list
    \<Rightarrow> (string \<times> string option) list" where
  "set_by_name k v [] = [(k, v)]"
| "set_by_name k v (p # ps) = (if fst p = k then (k, v) # ps else p # set_by_name k v ps)"

definition setAttribute :: "node \<Rightarrow> string \<Rightarrow> string option \<Rightarrow> node" where
  "setAttribute nd k v = set_attributes nd (set_by_name k v (attributes nd))"

text \<open>
  \<^verbatim>\<open>replacePlaceholder(str, value, _state)\<close>. The second component of the result
  tells whether the call has set \<^verbatim>\<open>_state.replaced\<close>.
\<close>

definition replacePlaceholder :: "string option \<Rightarrow> string option \<Rightarrow> string option \<times> bool" where
  "replacePlaceholder str v =
     (case str of
        None \<Rightarrow> (None, False)
      | Some s \<Rightarrow>
          (let ranges = findUnescapedTokens s placeholder
           in if ranges \<noteq> [] then (Some (replaceRanges s ranges (js_string v)), True)
              else (Some s, False)))"

text \<open>
  The \<^verbatim>\<open>forEach\<close> over the attributes in \<^verbatim>\<open>insertContentIntoPlaceholder\<close>: the
  state is the node and the flag \<^verbatim>\<open>state.replaced\<close>.
\<close>

fun replace_attributes :: "string option \<Rightarrow> (string \<times> string option) list
    \<Rightarrow> node \<times> bool \<Rightarrow> node \<times> bool" where
  "replace_attributes content [] st = st"
| "replace_attributes content (attr # attrs) st =
     (if truthy (snd attr)
      then replace_attributes content attrs
             (setAttribute (fst st) (fst attr) (fst (replacePlaceholder (snd attr) content)),
              snd st \<or> snd (replacePlaceholder (snd attr) content))
      else replace_attributes content attrs st)"

definition insertContentIntoPlaceholder :: "node \<Rightarrow> string option \<Rightarrow> node \<times> bool" where
  "insertContentIntoPlaceholder nd content =
     (let r = replacePlaceholder (nvalue nd) content;
          nd1 = set_value nd (fst r)
      in replace_attributes content (attributes nd1) (nd1, snd r))"

lemma children_setAttribute [simp]: "children (setAttribute nd k v) = children nd"
  by (simp add: setAttribute_def)

lemma children_replace_attributes [simp]:
  "children (fst (replace_attributes content attrs st)) = children (fst st)"
  by (induction content attrs st rule: replace_attributes.induct) simp_all

lemma children_insertContentIntoPlaceholder [simp]:
  "children (fst (insertContentIntoPlaceholder nd content)) = children nd"
  by (simp add: insertContentIntoPlaceholder_def Let_def)

text \<open>
  The walk of \<^verbatim>\<open>insertContent\<close> over the descendants of a node:
  \<^verbatim>\<open>node.walk(child => inserted |= insertContentIntoPlaceholder(child, content))\<close>.
  The result is the sibling list after the walk and whether a call has replaced a
  placeholder. The callback changes the value and the attributes of the node it is
  given; \<^verbatim>\<open>walk\<close> is the method described above, which calls the callback on a
  node and then goes on to the children of that node.
\<close>

function placeholder_walk :: "string option \<Rightarrow> node list \<Rightarrow> node list \<times> bool" where
  "placeholder_walk content [] = ([], False)"
| "placeholder_walk content (c # cs) =
     (let r = insertContentIntoPlaceholder c content;
          below = placeholder_walk content (children (fst r));
          rest = placeholder_walk content cs
      in (set_children (fst r) (fst below) # fst rest, snd r \<or> snd below \<or> snd rest))"
  by pat_completeness auto
termination
proof (relation "measure (\<lambda>(content, cs). size_list size cs)")
  fix content :: "string option" and c :: node and cs :: "node list"
    and r :: "node \<times> bool"
  assume "r = insertContentIntoPlaceholder c content"
  then have "children (fst r) = children c"
    by simp
  moreover have "size_list size (children c) < size c"
    by (cases c) simp
  ultimately show "((content, children (fst r)), (content, c # cs))
      \<in> measure (\<lambda>(content, cs). size_list size cs)"
    by simp
qed auto

text \<open>\<^verbatim>\<open>findDeepestNode\<close>: follow the last child until a node has no children.\<close>

function findDeepestNode :: "node \<Rightarrow> node" where
  "findDeepestNode nd =
     (if children nd \<noteq> [] then findDeepestNode (last (children nd)) else nd)"
  by pat_completeness auto
termination
  by (relation "measure size") (auto simp: size_child)

declare findDeepestNode.simps [simp del]

text \<open>
  The source changes the node that \<^verbatim>\<open>findDeepestNode\<close> returns in place, with a
  call \<open>f\<close> that can throw. \<open>update_deepest f nd\<close> is the tree \<open>nd\<close> after the
  call on that node, and the error of the call.
\<close>

function update_deepest :: "(node \<Rightarrow> node \<times> error option) \<Rightarrow> node \<Rightarrow> node \<times> error option" where
  "update_deepest f nd =
     (if children nd \<noteq> []
      then (let r = update_deepest f (last (children nd))
            in (set_children nd (butlast (children nd) @ [fst r]), snd r))
      else f nd)"
  by pat_completeness auto
termination
  by (relation "measure (\<lambda>(f, nd). size nd)") (auto simp: size_child)

declare update_deepest.simps [simp del]

text \<open>\<^verbatim>\<open>toLowerCase\<close> on the letters of ASCII.\<close>

definition toLowerCase :: "string \<Rightarrow> string" where
  "toLowerCase s =
     map (\<lambda>c. case map_of (zip uppers lowers) c of None \<Rightarrow> c | Some l \<Rightarrow> l) s"

text \<open>
  The statements of \<^verbatim>\<open>setNodeContent\<close> after the caret has been looked for: the
  special case of a link, and the assignment of the content to the value. The
  condition starts with \<^verbatim>\<open>node.name.toLowerCase()\<close>: on a node without a name
  this reads a property of \<^verbatim>\<open>null\<close> and throws, before \<^verbatim>\<open>hasAttribute\<close> is
  called and before anything is assigned.
\<close>

definition set_link_and_value :: "node \<Rightarrow> string option \<Rightarrow> node \<times> error option" where
  "set_link_and_value nd content =
     (case name nd of
        None \<Rightarrow> (nd, Some TypeError)
      | Some n \<Rightarrow>
          (let nd1 =
             (if toLowerCase n = ''a'' \<or> hasAttribute nd ''href''
              then
                (if rx_test reUrl (js_string content)
                 then setAttribute nd ''href''
                        (Some ((if rx_test_prefix reProto (js_string content) then []
                                else ''http://'') @ js_string content))
                 else if rx_test reEmail (js_string content)
                 then setAttribute nd ''href'' (Some (''mailto:'' @ js_string content))
                 else nd)
              else nd)
           in (set_value nd1 content, None)))"

text \<open>
  \<^verbatim>\<open>setNodeContent(node, content)\<close>; the result is the node after the call, and
  the error when the call throws. A value that is a string and not empty is searched
  for the caret; when a range is found, the value is replaced and the function
  returns.
\<close>

definition setNodeContent :: "node \<Rightarrow> string option \<Rightarrow> node \<times> error option" where
  "setNodeContent nd content =
     (case nvalue nd of
        None \<Rightarrow> set_link_and_value nd content
      | Some s \<Rightarrow>
          if s \<noteq> [] \<and> findUnescapedTokens s caret \<noteq> []
          then (set_value nd
                  (Some (replaceRanges s (findUnescapedTokens s caret) (js_string content))),
                None)
          else set_link_and_value nd content)"

text \<open>
  \<^verbatim>\<open>insertContent(node, content)\<close>: the placeholders of the node, then those of its
  descendants, then the deepest node when no placeholder was replaced. An error of
  \<^verbatim>\<open>setNodeContent\<close> is not caught.
\<close>

definition insertContent :: "node \<Rightarrow> string option \<Rightarrow> node \<times> error option" where
  "insertContent nd content =
     (let r = insertContentIntoPlaceholder nd content;
          below = placeholder_walk content (children (fst r));
          nd1 = set_children (fst r) (fst below);
          inserted = (snd r \<or> snd below)
      in if \<not> inserted then update_deepest (\<lambda>d. setNodeContent d content) nd1
         else (nd1, None))"

section \<open>Shape of a tree\<close>

text \<open>
  The tree without the values and the attributes of its nodes: what is left is the
  nodes with their names and repeat states and the parent and children relation.
\<close>

fun skeleton :: "node \<Rightarrow> node" where
  "skeleton (Node n v a ch r) = Node n None [] (map skeleton ch) r"

lemma skeleton_set_value [simp]: "skeleton (set_value nd v) = skeleton nd"
  by (cases nd) simp

lemma skeleton_set_attributes [simp]: "skeleton (set_attributes nd a) = skeleton nd"
  by (cases nd) simp

lemma skeleton_setAttribute [simp]: "skeleton (setAttribute nd k v) = skeleton nd"
  by (simp add: setAttribute_def)

lemma skeleton_set_children:
  "skeleton (set_children nd ch) = set_children (skeleton nd) (map skeleton ch)"
  by (cases nd) simp

lemma children_skeleton [simp]: "children (skeleton nd) = map skeleton (children nd)"
  by (cases nd) simp

lemma skeleton_replace_attributes [simp]:
  "skeleton (fst (replace_attributes content attrs st)) = skeleton (fst st)"
  by (induction content attrs st rule: replace_attributes.induct) simp_all

lemma skeleton_insertContentIntoPlaceholder [simp]:
  "skeleton (fst (insertContentIntoPlaceholder nd content)) = skeleton nd"
  by (simp add: insertContentIntoPlaceholder_def Let_def)

lemma skeleton_placeholder_walk [simp]:
  "map skeleton (fst (placeholder_walk content cs)) = map skeleton cs"
proof (induction content cs rule: placeholder_walk.induct)
  case (1 content)
  show ?case by simp
next
  case (2 content c cs)
  have "skeleton (set_children (fst (insertContentIntoPlaceholder c content))
          (fst (placeholder_walk content
                 (children (fst (insertContentIntoPlaceholder c content))))))
        = set_children (skeleton c) (map skeleton (children c))"
    using "2.IH"(1) [OF refl] by (simp add: skeleton_set_children)
  also have "\<dots> = skeleton c"
    by (metis children_skeleton set_children_same)
  finally show ?case
    using "2.IH"(2) [OF refl refl] by (simp add: Let_def)
qed

lemma skeleton_setNodeContent [simp]:
  "skeleton (fst (setNodeContent nd content)) = skeleton nd"
  by (simp add: setNodeContent_def set_link_and_value_def Let_def split: option.splits)

lemma skeleton_update_deepest:
  "(\<And>d. skeleton (fst (f d)) = skeleton d) \<Longrightarrow>
   skeleton (fst (update_deepest f nd)) = skeleton nd"
proof (induction f nd rule: update_deepest.induct)
  case (1 f nd)
  show ?case
  proof (cases "children nd = []")
    case True
    then show ?thesis
      using "1.prems" by (simp add: update_deepest.simps [of f nd])
  next
    case False
    then have whole: "butlast (children nd) @ [last (children nd)] = children nd"
      by simp
    have "map skeleton (butlast (children nd) @ [fst (update_deepest f (last (children nd)))])
        = map skeleton (butlast (children nd)) @ [skeleton (last (children nd))]"
      using "1.IH" [OF False "1.prems"] by simp
    also have "\<dots> = map skeleton (butlast (children nd) @ [last (children nd)])"
      by simp
    also have "\<dots> = map skeleton (children nd)"
      by (simp only: whole)
    finally show ?thesis
      using False
      by (simp add: update_deepest.simps [of f nd] skeleton_set_children Let_def)
         (metis children_skeleton set_children_same)
  qed
qed

lemma skeleton_insertContent [simp]:
  "skeleton (fst (insertContent nd content)) = skeleton nd"
proof -
  let ?r = "insertContentIntoPlaceholder nd content"
  let ?nd1 = "set_children (fst ?r) (fst (placeholder_walk content (children (fst ?r))))"
  have "skeleton ?nd1 = set_children (skeleton nd) (map skeleton (children nd))"
    by (simp add: skeleton_set_children)
  then have nd1: "skeleton ?nd1 = skeleton nd"
    by (metis children_skeleton set_children_same)
  have "skeleton (fst (update_deepest (\<lambda>d. setNodeContent d content) ?nd1)) = skeleton ?nd1"
    by (rule skeleton_update_deepest) simp
  with nd1 show ?thesis
    by (simp add: insertContent_def Let_def)
qed

lemma size_skeleton [simp]: "size (skeleton nd) = size nd"
  by (induction nd) (simp add: size_list_conv_sum_list comp_def cong: map_cong)

lemma size_insertContent [simp]: "size (fst (insertContent nd content)) = size nd"
  by (metis size_skeleton skeleton_insertContent)

section \<open>Inserting a content list\<close>

text \<open>\<^verbatim>\<open>node.repeat && node.repeat.implicit\<close>\<close>

definition is_implicit :: "node \<Rightarrow> bool" where
  "is_implicit nd = (case repeat nd of None \<Rightarrow> False | Some r \<Rightarrow> implicit r)"

text \<open>
  The callback of the walk of \<^verbatim>\<open>insert\<close>: the node after the call, whether the
  call has set \<^verbatim>\<open>updated\<close>, and the error when \<^verbatim>\<open>insertContent\<close> throws.
\<close>

definition insert_visit :: "string list \<Rightarrow> node \<Rightarrow> node \<times> bool \<times> error option" where
  "insert_visit content nd =
     (case repeat nd of
        None \<Rightarrow> (nd, False, None)
      | Some r \<Rightarrow>
          if implicit r
          then (case insertContent nd (item content (index r)) of (nd', e) \<Rightarrow> (nd', True, e))
          else (nd, False, None))"

lemma skeleton_insert_visit [simp]: "skeleton (fst (insert_visit content nd)) = skeleton nd"
proof (cases "repeat nd")
  case None
  then show ?thesis
    by (simp add: insert_visit_def)
next
  case (Some r)
  have "skeleton (fst (insertContent nd (item content (index r)))) = skeleton nd"
    by simp
  with Some show ?thesis
    by (cases "insertContent nd (item content (index r))") (simp add: insert_visit_def)
qed

lemma size_insert_visit [simp]: "size (fst (insert_visit content nd)) = size nd"
  by (metis size_skeleton skeleton_insert_visit)

text \<open>
  The walk of \<^verbatim>\<open>insert\<close> over a sibling list and below: the callback is called
  on a node before the walk goes on to the children of that node, so a node below an
  implicitly repeated node is visited after content has been inserted into the
  subtree of that node. An error of the callback ends the walk: the nodes that the
  walk has not reached stay as they are. The result is the sibling list as the walk
  leaves it, the flag \<^verbatim>\<open>updated\<close>, and the error.
\<close>

function insert_walk :: "string list \<Rightarrow> node list \<Rightarrow> node list \<times> bool \<times> error option" where
  "insert_walk content [] = ([], False, None)"
| "insert_walk content (ctx # next) =
     (case insert_visit content ctx of
        (ctx', u, Some e) \<Rightarrow> (ctx' # next, u, Some e)
      | (ctx', u, None) \<Rightarrow>
          (case insert_walk content (children ctx') of
             (ch, u1, Some e) \<Rightarrow> (set_children ctx' ch # next, u \<or> u1, Some e)
           | (ch, u1, None) \<Rightarrow>
               (case insert_walk content next of
                  (rest, u2, e) \<Rightarrow> (set_children ctx' ch # rest, u \<or> u1 \<or> u2, e))))"
  by pat_completeness auto
termination
proof (relation "measure (\<lambda>(content, cs). size_list size cs)", goal_cases)
  case 1
  show ?case by simp
next
  case (2 content ctx "next" ctx' y u e)
  then have "size ctx' = size ctx"
    using size_insert_visit [of content ctx] by (metis fst_conv)
  then show ?case
    using children_smaller [of ctx'] by simp
next
  case 3
  show ?case by simp
qed

text \<open>\<^verbatim>\<open>content.join('\n')\<close>\<close>

fun join_lines :: "string list \<Rightarrow> string" where
  "join_lines [] = []"
| "join_lines [x] = x"
| "join_lines (x # y # ys) = x @ CHR 0x0A # join_lines (y # ys)"

text \<open>
  The content argument of the exported functions: a string, an array of strings, or
  any other value.
\<close>

datatype content = Str string | Arr "string list" | Other

text \<open>
  \<^verbatim>\<open>insert(tree, content)\<close>: the tree after the call, and the error when the call
  throws. The condition \<^verbatim>\<open>Array.isArray(content) && content.length\<close> holds of an
  array that is not empty. An error of the walk or of \<^verbatim>\<open>setNodeContent\<close> is not
  caught.
\<close>

definition insert_tree :: "node \<Rightarrow> content \<Rightarrow> node \<times> error option" where
  "insert_tree tree content =
     (case content of
        Arr items \<Rightarrow>
          if items \<noteq> [] then
            (case insert_walk items (children tree) of
               (ch, updated, Some e) \<Rightarrow> (set_children tree ch, Some e)
             | (ch, updated, None) \<Rightarrow>
                 if \<not> updated
                 then update_deepest (\<lambda>d. setNodeContent d (Some (join_lines items)))
                        (set_children tree ch)
                 else (set_children tree ch, None))
          else (tree, None)
      | _ \<Rightarrow> (tree, None))"

text \<open>The first statement of the default export: a string becomes a list of one item.\<close>

definition normalize_content :: "content \<Rightarrow> content" where
  "normalize_content content = (case content of Str s \<Rightarrow> Arr [s] | _ \<Rightarrow> content)"

text \<open>
  The default export of the module: the tree after the call, and the error when
  \<^verbatim>\<open>insert\<close> throws.
\<close>

definition default_export :: "node \<Rightarrow> content \<Rightarrow> node \<times> error option" where
  "default_export tree content =
     (case normalize_content content of
        Arr items \<Rightarrow>
          if items \<noteq> [] then insert_tree (prepare tree (length items)) (Arr items)
          else (tree, None)
      | _ \<Rightarrow> (tree, None))"

section \<open>Notions of the specification\<close>

text \<open>
  The sibling lists that the walk of \<^verbatim>\<open>prepare\<close> goes through in the tree: the
  children of the node, and those of every descendant that is not unresolved and not
  below an unresolved node.
\<close>

fun walked_in :: "node \<Rightarrow> node list list" where
  "walked_in (Node n v a ch r) =
     ch # concat (map (\<lambda>c. if unresolved c then [] else walked_in c) ch)"

text \<open>The sibling lists of a tree: the children of the node and of every descendant.\<close>

fun sibling_lists :: "node \<Rightarrow> node list list" where
  "sibling_lists (Node n v a ch r) = ch # concat (map sibling_lists ch)"

text \<open>
  The replacement as the specification words it (sections 4.3 and 9), in one pass
  over the string: a token after the escape marker is un-escaped to its literal form,
  any other token is replaced with the value, every other character is kept.
\<close>

function expand_tokens :: "string \<Rightarrow> string \<Rightarrow> string \<Rightarrow> string" where
  "expand_tokens token v s =
     (if s = [] \<or> token = [] then s
      else if hd s = escape \<and> take (length token) (tl s) = token then
        token @ expand_tokens token v (drop (1 + length token) s)
      else if take (length token) s = token then
        v @ expand_tokens token v (drop (length token) s)
      else hd s # expand_tokens token v (tl s))"
  by pat_completeness auto
termination
  by (relation "measure (\<lambda>(token, v, s). length s)") auto

declare expand_tokens.simps [simp del]

text \<open>Whether a node of the sibling list or below has the flag \<^verbatim>\<open>repeat.implicit\<close>.\<close>

definition has_implicit :: "node list \<Rightarrow> bool" where
  "has_implicit cs = (\<exists>n \<in> set (concat (map nodes_of cs)). is_implicit n)"

text \<open>
  What section 4.3 of the specification says of one string: the string has a
  placeholder when the scanner finds an unescaped one, and then every unescaped
  placeholder is replaced with the content.
\<close>

definition has_placeholder :: "string option \<Rightarrow> bool" where
  "has_placeholder v =
     (case v of None \<Rightarrow> False | Some s \<Rightarrow> findUnescapedTokens s placeholder \<noteq> [])"

definition fill_string :: "string option \<Rightarrow> string option \<Rightarrow> string option" where
  "fill_string content v =
     (case v of
        None \<Rightarrow> None
      | Some s \<Rightarrow>
          if findUnescapedTokens s placeholder \<noteq> []
          then Some (expand_tokens placeholder (js_string content) s)
          else Some s)"

text \<open>
  A node has a placeholder when its value or one of its non-empty attribute values
  has one.
\<close>

definition node_has_placeholder :: "node \<Rightarrow> bool" where
  "node_has_placeholder nd =
     (has_placeholder (nvalue nd)
      \<or> (\<exists>a \<in> set (attributes nd). truthy (snd a) \<and> has_placeholder (snd a)))"

text \<open>
  The subtree with the placeholders replaced in the value and in the attribute values
  of every node.
\<close>

fun fill_node :: "string option \<Rightarrow> node \<Rightarrow> node" where
  "fill_node content (Node n v a ch r) =
     Node n (fill_string content v)
       (map (\<lambda>attr. (fst attr, fill_string content (snd attr))) a)
       (map (fill_node content) ch) r"

section \<open>Properties of the repeat expander\<close>

lemma clone_loop_result:
  "clone_loop N i (before, x) = (before @ map (\<lambda>j. resolved_clone N j x) [i..<N], x)"
proof (induction "N - i" arbitrary: i before)
  case 0
  then show ?case
    by (simp add: clone_loop.simps [of N i])
next
  case (Suc k)
  then have i: "i < N" and k: "k = N - (i + 1)"
    by simp_all
  have "clone_loop N i (before, x)
      = clone_loop N (i + 1) (before @ [resolved_clone N i x], x)"
    using i by (simp add: clone_loop.simps [of N i] insertBefore_def clone_def)
  also have "\<dots> = ((before @ [resolved_clone N i x])
      @ map (\<lambda>j. resolved_clone N j x) [i + 1..<N], x)"
    using k by (rule Suc.hyps(1))
  also have "\<dots> = (before @ map (\<lambda>j. resolved_clone N j x) [i..<N], x)"
    using i by (simp add: upt_conv_Cons)
  finally show ?case .
qed

lemma prepare_visit_unresolved:
  "unresolved x \<Longrightarrow>
   prepare_visit N (before, x) = (before @ map (\<lambda>i. resolved_clone N i x) [0..<N], None)"
  by (simp add: prepare_visit_def clone_loop_result remove_def)

lemma prepare_visit_other:
  "\<not> unresolved x \<Longrightarrow> prepare_visit N (before, x) = (before, Some x)"
  by (simp add: prepare_visit_def)

lemma prepare_siblings_behind:
  "prepare_siblings N before todo = before @ prepare_siblings N [] todo"
proof (induction todo arbitrary: before)
  case Nil
  show ?case by simp
next
  case (Cons c cs)
  show ?case
  proof (cases "unresolved c")
    case True
    then show ?thesis
      using Cons [of "before @ map (\<lambda>i. resolved_clone N i c) [0..<N]"]
        Cons [of "[] @ map (\<lambda>i. resolved_clone N i c) [0..<N]"]
      by (simp add: prepare_visit_unresolved)
  next
    case False
    then show ?thesis
      using Cons [of "before @ [set_children c (prepare_siblings N [] (children c))]"]
        Cons [of "[set_children c (prepare_siblings N [] (children c))]"]
      by (simp add: prepare_visit_other)
  qed
qed

lemma prepare_walk_Nil [simp]: "prepare_walk N [] = []"
  by (simp add: prepare_walk_def)

lemma prepare_walk_Cons:
  "prepare_walk N (c # cs) =
     (if unresolved c then map (\<lambda>i. resolved_clone N i c) [0..<N]
      else [set_children c (prepare_walk N (children c))])
     @ prepare_walk N cs"
  using prepare_siblings_behind [of N "map (\<lambda>i. resolved_clone N i c) [0..<N]" cs]
    prepare_siblings_behind [of N "[set_children c (prepare_siblings N [] (children c))]" cs]
  by (simp add: prepare_walk_def prepare_visit_unresolved prepare_visit_other)

lemma prepare_walk_append:
  "prepare_walk N (xs @ ys) = prepare_walk N xs @ prepare_walk N ys"
  by (induction xs) (simp_all add: prepare_walk_Cons)

lemma unresolved_resolved_clone [simp]: "\<not> unresolved (resolved_clone N i c)"
  by (cases c) (simp add: resolved_clone_def unresolved_def)

lemma unresolved_set_children [simp]: "unresolved (set_children c ch) = unresolved c"
  by (cases c) (simp add: unresolved_def)


lemma prepare_walk_node_unchanged:
  "\<forall>n \<in> set (nodes_of nd). \<not> unresolved n \<Longrightarrow> prepare_walk N [nd] = [nd]"
proof (induction nd)
  case (Node n v a ch r)
  have "prepare_walk N xs = xs" if "set xs \<subseteq> set ch" for xs
    using that
  proof (induction xs)
    case Nil
    show ?case by simp
  next
    case (Cons c cs)
    then have "c \<in> set ch" and "\<forall>n \<in> set (nodes_of c). \<not> unresolved n"
      using Node.prems by auto
    then have "prepare_walk N [c] = [c]"
      by (rule Node.IH)
    then show ?case
      using Cons prepare_walk_append [of N "[c]" cs] by simp
  qed
  then have "prepare_walk N ch = ch"
    by simp
  moreover have "\<not> unresolved (Node n v a ch r)"
    using Node.prems by simp
  ultimately show ?case
    by (simp add: prepare_walk_Cons)
qed

lemma prepare_walk_unchanged:
  "\<forall>n \<in> set (concat (map nodes_of cs)). \<not> unresolved n \<Longrightarrow> prepare_walk N cs = cs"
proof (induction cs)
  case Nil
  show ?case by simp
next
  case (Cons c cs)
  then have "prepare_walk N [c] = [c]"
    by (intro prepare_walk_node_unchanged) simp
  then show ?case
    using Cons prepare_walk_append [of N "[c]" cs] by simp
qed

lemma prepare_walk_single:
  "prepare_walk N [c] =
     (if unresolved c
      then map (\<lambda>i. Node (name c) (nvalue c) (attributes c) (children c)
                  (Some \<lparr>count = Some N, implicit = True, rvalue = i + 1, index = i\<rparr>))
             [0..<N]
      else [Node (name c) (nvalue c) (attributes c) (prepare_walk N (children c)) (repeat c)])"
  by (cases c) (simp add: prepare_walk_Cons resolved_clone_def)

lemma prepare_walk_around:
  "prepare_walk N (pre @ c # post) = prepare_walk N pre @ prepare_walk N [c] @ prepare_walk N post"
  using prepare_walk_append [of N pre "[c] @ post"] prepare_walk_append [of N "[c]" post]
  by simp

lemma children_prepare:
  "children (prepare t N) = prepare_walk (if N = 0 then 1 else N) (children t)"
  by (simp add: prepare_def)


lemma sibling_lists_children:
  "set (sibling_lists nd) = insert (children nd) (\<Union>c \<in> set (children nd). set (sibling_lists c))"
  by (cases nd) auto

lemma walked_in_children:
  "set (walked_in nd) =
     insert (children nd)
       (\<Union>c \<in> {c \<in> set (children nd). \<not> unresolved c}. set (walked_in c))"
  by (cases nd) auto





text \<open>
  C8, as stated: \<^verbatim>\<open>prepare\<close> leaves every node without a repeat field, or with a
  count that is not \<^verbatim>\<open>null\<close>, untouched: neither cloned nor removed, its children
  unchanged. In the tree \<^verbatim>\<open>ul > li* > span\<close> neither \<^verbatim>\<open>ul\<close> nor \<^verbatim>\<open>span\<close> is
  unresolved; after \<^verbatim>\<open>prepare\<close> with amount 2 the children of \<^verbatim>\<open>ul\<close> are two
  new nodes, and \<^verbatim>\<open>span\<close> is in the tree twice, once in each clone of its parent.
\<close>

theorem prepare_untouched_counterexample:
  "\<not> unresolved (Node (Some ''span'') None [] [] None)
   \<and> \<not> unresolved (Node (Some ''ul'') None []
         [Node (Some ''li'') None [] [Node (Some ''span'') None [] [] None]
            (Some \<lparr>count = None, implicit = False, rvalue = 0, index = 0\<rparr>)] None)
   \<and> prepare (Node None None []
         [Node (Some ''ul'') None []
           [Node (Some ''li'') None [] [Node (Some ''span'') None [] [] None]
              (Some \<lparr>count = None, implicit = False, rvalue = 0, index = 0\<rparr>)] None] None) 2
     = Node None None []
         [Node (Some ''ul'') None []
           [Node (Some ''li'') None [] [Node (Some ''span'') None [] [] None]
              (Some \<lparr>count = Some 2, implicit = True, rvalue = 1, index = 0\<rparr>),
            Node (Some ''li'') None [] [Node (Some ''span'') None [] [] None]
              (Some \<lparr>count = Some 2, implicit = True, rvalue = 2, index = 1\<rparr>)] None] None
   \<and> count_list (nodes_of (prepare (Node None None []
         [Node (Some ''ul'') None []
           [Node (Some ''li'') None [] [Node (Some ''span'') None [] [] None]
              (Some \<lparr>count = None, implicit = False, rvalue = 0, index = 0\<rparr>)] None] None) 2))
         (Node (Some ''span'') None [] [] None) = 2"
  by code_simp

text \<open>
  C8, amended. A node \<open>c\<close> without a repeat field, or with a count that is not
  \<^verbatim>\<open>null\<close>, is not expanded: in a sibling list that \<^verbatim>\<open>prepare\<close> walks it stays at
  its place, once, with its name, value, attributes and repeat state; its children
  are its children after the same walk. When no node of the subtree of \<open>c\<close> is
  unresolved, \<open>c\<close> is unchanged altogether, and a tree without an unresolved
  descendant is returned as it is.
\<close>

theorem prepare_keeps_resolved:
  "(\<not> unresolved c \<longrightarrow>
      prepare_walk N (pre @ c # post) =
        prepare_walk N pre @
        Node (name c) (nvalue c) (attributes c) (prepare_walk N (children c)) (repeat c) #
        prepare_walk N post)
   \<and> ((\<forall>d \<in> set (nodes_of c). \<not> unresolved d) \<longrightarrow>
        prepare_walk N (pre @ c # post) = prepare_walk N pre @ c # prepare_walk N post)
   \<and> ((\<forall>d \<in> set (descendants t). \<not> unresolved d) \<longrightarrow> prepare t N = t)"
proof (intro conjI impI)
  assume "\<not> unresolved c"
  then show "prepare_walk N (pre @ c # post) =
        prepare_walk N pre @
        Node (name c) (nvalue c) (attributes c) (prepare_walk N (children c)) (repeat c) #
        prepare_walk N post"
    by (simp only: prepare_walk_around [of N pre c post] prepare_walk_single if_False
          append_Cons append_Nil)
next
  assume "\<forall>d \<in> set (nodes_of c). \<not> unresolved d"
  then have "prepare_walk N [c] = [c]"
    by (intro prepare_walk_unchanged) simp
  then show "prepare_walk N (pre @ c # post) = prepare_walk N pre @ c # prepare_walk N post"
    by (simp only: prepare_walk_around [of N pre c post] append_Cons append_Nil)
next
  assume "\<forall>d \<in> set (descendants t). \<not> unresolved d"
  then have "prepare_walk (if N = 0 then 1 else N) (children t) = children t"
    unfolding descendants_def by (rule prepare_walk_unchanged)
  then show "prepare t N = t"
    by (simp add: prepare_def)
qed

theorem prepare_keeps_resolved_witness:
  "\<not> unresolved (Node (Some ''ul'') None [] [Node (Some ''b'') (Some ''x'') [] [] None] None)
   \<and> prepare_walk 3 ([] @ Node (Some ''ul'') None [] [Node (Some ''b'') (Some ''x'') [] [] None] None # [])
      = [Node (Some ''ul'') None [] [Node (Some ''b'') (Some ''x'') [] [] None] None]
   \<and> prepare (Node None None []
          [Node (Some ''ul'') None [] [Node (Some ''b'') (Some ''x'') [] [] None] None] None) 3
      = Node None None [] [Node (Some ''ul'') None [] [Node (Some ''b'') (Some ''x'') [] [] None] None] None"
proof -
  let ?ul = "Node (Some ''ul'') None [] [Node (Some ''b'') (Some ''x'') [] [] None] None"
  let ?t = "Node None None [] [?ul] None"
  have a: "\<not> unresolved ?ul"
    by (simp add: unresolved_def)
  have b: "\<forall>d \<in> set (nodes_of ?ul). \<not> unresolved d"
    by (simp add: unresolved_def)
  have c: "\<forall>d \<in> set (descendants ?t). \<not> unresolved d"
    by (simp add: descendants_def unresolved_def)
  note inst = prepare_keeps_resolved [of ?ul 3 "[]" "[]" ?t]
  from inst a have "prepare_walk 3 ([] @ ?ul # []) =
      prepare_walk 3 [] @
      Node (name ?ul) (nvalue ?ul) (attributes ?ul) (prepare_walk 3 (children ?ul)) (repeat ?ul) #
      prepare_walk 3 []"
    by blast
  moreover have "prepare_walk 3 [Node (Some ''b'') (Some ''x'') [] [] None]
      = [Node (Some ''b'') (Some ''x'') [] [] None]"
    by code_simp
  ultimately have w1: "prepare_walk 3 ([] @ ?ul # []) = [?ul]"
    by simp
  from inst b have "prepare_walk 3 ([] @ ?ul # []) = prepare_walk 3 [] @ ?ul # prepare_walk 3 []"
    by blast
  then have w: "prepare_walk 3 ([] @ ?ul # []) = [?ul]"
    by simp
  from inst c have "prepare ?t 3 = ?t"
    by blast
  with a w w1 show ?thesis
    by blast
qed

section \<open>Properties of the default export\<close>

text \<open>
  C7, as stated: a content argument that is not a string is made a list of one item.
  The value \<open>Other\<close> (a number, \<^verbatim>\<open>null\<close>, \<^verbatim>\<open>undefined\<close>) is not a string: it
  is left as it is, and the default export returns the tree without expanding the
  unresolved node. An array of two items is not a string either: it stays an array of
  two items.
\<close>

theorem normalize_nonstring_counterexample:
  "normalize_content Other = Other
   \<and> default_export (Node None None []
        [Node (Some ''li'') None [] [] (Some \<lparr>count = None, implicit = False, rvalue = 0, index = 0\<rparr>)]
        None) Other
     = (Node None None []
        [Node (Some ''li'') None [] [] (Some \<lparr>count = None, implicit = False, rvalue = 0, index = 0\<rparr>)]
        None, None)
   \<and> normalize_content (Arr [''a'', ''b'']) = Arr [''a'', ''b'']"
  by (simp add: normalize_content_def default_export_def)

text \<open>
  C7, amended. A content argument that is a string is made a list of one item, and
  the default export goes on with \<^verbatim>\<open>prepare(tree, 1)\<close> and \<^verbatim>\<open>insert\<close> of that
  list. An array is used as it is. Any other value is left as it is, and the
  default export returns the tree unchanged.
\<close>

theorem normalize_string_content:
  "normalize_content (Str s) = Arr [s]
   \<and> normalize_content (Arr items) = Arr items
   \<and> normalize_content Other = Other
   \<and> default_export tree (Str s) = insert_tree (prepare tree 1) (Arr [s])
   \<and> default_export tree Other = (tree, None)"
  by (simp add: normalize_content_def default_export_def)

section \<open>Properties of the matcher\<close>

text \<open>The tests by derivatives decide membership in the language of the expression.\<close>

lemma nullable_lang: "nullable r = ([] \<in> lang r)"
  by (induction r) (auto intro: repeated.none)

lemma lang_rx_seq [simp]: "lang (rx_seq r s) = lang (Seq r s)"
  by (auto simp: rx_seq_def)

lemma lang_rx_alt [simp]: "lang (rx_alt r s) = lang (Alt r s)"
  by (auto simp: rx_alt_def)

lemma repeated_Cons:
  "(c # s \<in> repeated A) = (\<exists>u v. s = u @ v \<and> c # u \<in> A \<and> v \<in> repeated A)"
proof
  have "x = c # s \<Longrightarrow> \<exists>u v. s = u @ v \<and> c # u \<in> A \<and> v \<in> repeated A"
    if "x \<in> repeated A" for x
    using that
  proof (induction rule: repeated.induct)
    case none
    then show ?case by simp
  next
    case (more u v)
    then show ?case
      by (cases u) auto
  qed
  then show "c # s \<in> repeated A \<Longrightarrow> \<exists>u v. s = u @ v \<and> c # u \<in> A \<and> v \<in> repeated A"
    by blast
next
  assume "\<exists>u v. s = u @ v \<and> c # u \<in> A \<and> v \<in> repeated A"
  then obtain u v where "s = u @ v" "c # u \<in> A" "v \<in> repeated A"
    by blast
  then show "c # s \<in> repeated A"
    using repeated.more [of "c # u" A v] by simp
qed

lemma lang_deriv: "lang (deriv c r) = {s. c # s \<in> lang r}"
proof (induction r)
  case (Seq r1 r2)
  have "(s \<in> lang (Seq (deriv c r1) r2) \<or> (nullable r1 \<and> s \<in> lang (deriv c r2)))
      = (c # s \<in> lang (Seq r1 r2))" for s
  proof -
    have "(c # s \<in> lang (Seq r1 r2))
        = (\<exists>u v. c # s = u @ v \<and> u \<in> lang r1 \<and> v \<in> lang r2)"
      by auto
    also have "\<dots> = ((\<exists>u v. s = u @ v \<and> c # u \<in> lang r1 \<and> v \<in> lang r2)
        \<or> ([] \<in> lang r1 \<and> c # s \<in> lang r2))"
      by (simp add: Cons_eq_append_conv) blast
    also have "\<dots> = (s \<in> lang (Seq (deriv c r1) r2) \<or> (nullable r1 \<and> s \<in> lang (deriv c r2)))"
      using Seq.IH by (auto simp: nullable_lang)
    finally show ?thesis by simp
  qed
  then have "(s \<in> lang (deriv c (Seq r1 r2))) = (c # s \<in> lang (Seq r1 r2))" for s
    by (cases "nullable r1") (simp_all del: lang.simps(4))
  then show ?case
    by blast
next
  case (Star r)
  then show ?case
    by (auto simp: repeated_Cons)
qed auto

lemma rx_test_lang: "rx_test r s = (s \<in> lang r)"
  by (induction s arbitrary: r) (simp_all add: nullable_lang lang_deriv)

lemma rx_test_prefix_lang: "rx_test_prefix r s = (\<exists>u v. s = u @ v \<and> u \<in> lang r)"
proof (induction s arbitrary: r)
  case Nil
  show ?case by (simp add: nullable_lang)
next
  case (Cons c s)
  have "(\<exists>u v. c # s = u @ v \<and> u \<in> lang r)
      = ([] \<in> lang r \<or> (\<exists>u v. s = u @ v \<and> c # u \<in> lang r))"
    by (simp add: Cons_eq_append_conv) blast
  then show ?case
    using Cons.IH [of "deriv c r"] by (simp add: nullable_lang lang_deriv)
qed

section \<open>Properties of the token scanner\<close>

lemma scan_tokens_Nil [simp]: "scan_tokens token esc pos [] = []"
  by (simp add: scan_tokens.simps)

lemma scan_tokens_escaped:
  "s \<noteq> [] \<Longrightarrow> token \<noteq> [] \<Longrightarrow> take (length token) s = token \<Longrightarrow>
   scan_tokens token True pos s
     = scan_tokens token False (pos + length token) (drop (length token) s)"
  by (subst scan_tokens.simps) simp

lemma scan_tokens_found:
  "s \<noteq> [] \<Longrightarrow> token \<noteq> [] \<Longrightarrow> take (length token) s = token \<Longrightarrow>
   scan_tokens token False pos s
     = (pos, pos + length token)
         # scan_tokens token False (pos + length token) (drop (length token) s)"
  by (subst scan_tokens.simps) simp

lemma scan_tokens_step:
  "s \<noteq> [] \<Longrightarrow> \<not> (token \<noteq> [] \<and> take (length token) s = token) \<Longrightarrow>
   scan_tokens token esc pos s = scan_tokens token (hd s = escape) (pos + 1) (tl s)"
  by (subst scan_tokens.simps) auto

lemma findUnescapedTokens_Nil [simp]: "findUnescapedTokens [] token = []"
  by (simp add: findUnescapedTokens_def)

lemma rebuild_Nil [simp]: "rebuild token v pos rs [] = []"
  by (simp add: rebuild.simps)

lemma rebuild_range:
  "s \<noteq> [] \<Longrightarrow>
   rebuild token v pos ((pos, e) # rs) s
     = v @ rebuild token v (pos + (e - pos)) rs (drop (e - pos) s)"
  by (subst rebuild.simps) simp

lemma rebuild_escaped:
  "s \<noteq> [] \<Longrightarrow> \<not> (rs \<noteq> [] \<and> fst (hd rs) = pos) \<Longrightarrow> token \<noteq> [] \<Longrightarrow>
   hd s = escape \<and> take (length token) (tl s) = token \<Longrightarrow>
   rebuild token v pos rs s
     = token @ rebuild token v (pos + 1 + length token) rs (drop (1 + length token) s)"
  by (subst rebuild.simps) auto

lemma rebuild_keep:
  "s \<noteq> [] \<Longrightarrow> \<not> (rs \<noteq> [] \<and> fst (hd rs) = pos) \<Longrightarrow>
   \<not> (hd s = escape \<and> take (length token) (tl s) = token) \<Longrightarrow>
   rebuild token v pos rs s = hd s # rebuild token v (pos + 1) rs (tl s)"
  by (subst rebuild.simps) auto

lemma expand_tokens_Nil [simp]: "expand_tokens token v [] = []"
  by (simp add: expand_tokens.simps)

lemma expand_tokens_escaped:
  "s \<noteq> [] \<Longrightarrow> token \<noteq> [] \<Longrightarrow> hd s = escape \<and> take (length token) (tl s) = token \<Longrightarrow>
   expand_tokens token v s = token @ expand_tokens token v (drop (1 + length token) s)"
  by (subst expand_tokens.simps) simp

lemma expand_tokens_found:
  "s \<noteq> [] \<Longrightarrow> token \<noteq> [] \<Longrightarrow> \<not> (hd s = escape \<and> take (length token) (tl s) = token) \<Longrightarrow>
   take (length token) s = token \<Longrightarrow>
   expand_tokens token v s = v @ expand_tokens token v (drop (length token) s)"
  by (subst expand_tokens.simps) auto

lemma expand_tokens_keep:
  "s \<noteq> [] \<Longrightarrow> token \<noteq> [] \<Longrightarrow> \<not> (hd s = escape \<and> take (length token) (tl s) = token) \<Longrightarrow>
   take (length token) s \<noteq> token \<Longrightarrow>
   expand_tokens token v s = hd s # expand_tokens token v (tl s)"
  by (subst expand_tokens.simps) auto

lemma scan_tokens_text:
  "r \<in> set (scan_tokens token esc pos s) \<Longrightarrow>
   pos \<le> fst r \<and> snd r = fst r + length token
   \<and> take (length token) (drop (fst r - pos) s) = token"
proof (induction "length s" arbitrary: s esc pos rule: less_induct)
  case less
  show ?case
  proof (cases "s = []")
    case True
    with less.prems show ?thesis by simp
  next
    case False
    let ?n = "length token"
    show ?thesis
    proof (cases "token \<noteq> [] \<and> take ?n s = token")
      case True
      let ?rest = "scan_tokens token False (pos + ?n) (drop ?n s)"
      have "scan_tokens token esc pos s = ?rest
          \<or> scan_tokens token esc pos s = (pos, pos + ?n) # ?rest"
        using False True scan_tokens_escaped [of s token pos] scan_tokens_found [of s token pos]
        by (cases esc) simp_all
      with less.prems consider "r = (pos, pos + ?n)" | "r \<in> set ?rest"
        by auto
      then show ?thesis
      proof cases
        case 1
        with True show ?thesis by simp
      next
        case 2
        have "length (drop ?n s) < length s"
          using False True by simp
        then have "pos + ?n \<le> fst r \<and> snd r = fst r + ?n
            \<and> take ?n (drop (fst r - (pos + ?n)) (drop ?n s)) = token"
          using 2 by (rule less.hyps)
        moreover from this have "fst r - (pos + ?n) + ?n = fst r - pos"
          by arith
        ultimately show ?thesis
          by simp
      qed
    next
      case no: False
      let ?rest = "scan_tokens token (hd s = escape) (pos + 1) (tl s)"
      have in_rest: "r \<in> set ?rest"
        using less.prems scan_tokens_step [OF False no] by simp
      have "length (tl s) < length s"
        using False by simp
      then have "pos + 1 \<le> fst r \<and> snd r = fst r + ?n
          \<and> take ?n (drop (fst r - (pos + 1)) (tl s)) = token"
        using in_rest by (rule less.hyps)
      moreover from this have "Suc (fst r - (pos + 1)) = fst r - pos"
        by arith
      ultimately show ?thesis
        by (metis Suc_leD Suc_eq_plus1 drop_Suc)
    qed
  qed
qed

lemma scan_tokens_from: "r \<in> set (scan_tokens token esc pos s) \<Longrightarrow> pos \<le> fst r"
  by (simp add: scan_tokens_text)

lemma scan_tokens_no_token:
  "\<not> (token \<noteq> [] \<and> take (length token) s = token) \<Longrightarrow>
   scan_tokens token esc pos s = scan_tokens token False pos s"
  by (cases "s = []") (simp_all add: scan_tokens_step [of s token])

lemma no_escape_at_head:
  "token \<noteq> [] \<Longrightarrow> escape \<notin> set token \<Longrightarrow> s \<noteq> [] \<Longrightarrow> hd s = escape \<Longrightarrow>
   take (length token) s \<noteq> token"
  by (cases s; cases token) auto

lemma rebuild_scan_tokens:
  assumes "token \<noteq> []" and "escape \<notin> set token"
  shows "rebuild token v pos (scan_tokens token False pos s) s = expand_tokens token v s"
proof (induction "length s" arbitrary: s pos rule: less_induct)
  case less
  show ?case
  proof (cases "s = []")
    case True
    then show ?thesis
      by simp
  next
    case False
    let ?n = "length token"
    consider (escaped) "hd s = escape \<and> take ?n (tl s) = token"
      | (token) "\<not> (hd s = escape \<and> take ?n (tl s) = token)" "take ?n s = token"
      | (other) "\<not> (hd s = escape \<and> take ?n (tl s) = token)" "take ?n s \<noteq> token"
      by blast
    then show ?thesis
    proof cases
      case escaped
      then have here: "\<not> (token \<noteq> [] \<and> take ?n s = token)"
        using no_escape_at_head [OF assms False] by blast
      from escaped assms(1) have tl: "tl s \<noteq> []"
        by auto
      let ?rs = "scan_tokens token False (pos + 1 + ?n) (drop ?n (tl s))"
      have "scan_tokens token False pos s = scan_tokens token True (pos + 1) (tl s)"
        using scan_tokens_step [OF False here, of False pos] escaped by simp
      also have "\<dots> = ?rs"
        using scan_tokens_escaped [OF tl assms(1), of "pos + 1"] escaped by simp
      finally have scan: "scan_tokens token False pos s = ?rs" .
      have "\<forall>r \<in> set ?rs. pos + 1 + ?n \<le> fst r"
        using scan_tokens_from by blast
      then have not_here: "\<not> (?rs \<noteq> [] \<and> fst (hd ?rs) = pos)"
        by (cases ?rs) auto
      have same: "drop ?n (tl s) = drop (1 + ?n) s"
        by (simp add: drop_Suc)
      have "length (drop (1 + ?n) s) < length s"
        using False by simp
      then have ih: "rebuild token v (pos + 1 + ?n)
            (scan_tokens token False (pos + 1 + ?n) (drop (1 + ?n) s)) (drop (1 + ?n) s)
          = expand_tokens token v (drop (1 + ?n) s)"
        by (rule less)
      have "rebuild token v pos ?rs s
          = token @ rebuild token v (pos + 1 + ?n) ?rs (drop (1 + ?n) s)"
        using False not_here assms(1) escaped by (rule rebuild_escaped)
      also have "\<dots> = token @ expand_tokens token v (drop (1 + ?n) s)"
        using ih by (simp only: same)
      also have "\<dots> = expand_tokens token v s"
        using expand_tokens_escaped [OF False assms(1) escaped] by simp
      finally show ?thesis
        by (simp only: scan)
    next
      case token
      let ?rs = "scan_tokens token False (pos + ?n) (drop ?n s)"
      have scan: "scan_tokens token False pos s = (pos, pos + ?n) # ?rs"
        using False assms(1) token(2) by (rule scan_tokens_found)
      have "length (drop ?n s) < length s"
        using False assms(1) by simp
      then have ih: "rebuild token v (pos + ?n) ?rs (drop ?n s)
          = expand_tokens token v (drop ?n s)"
        by (rule less)
      have "rebuild token v pos ((pos, pos + ?n) # ?rs) s
          = v @ rebuild token v (pos + (pos + ?n - pos)) ?rs (drop (pos + ?n - pos) s)"
        using False by (rule rebuild_range)
      also have "\<dots> = v @ expand_tokens token v (drop ?n s)"
        using ih by simp
      also have "\<dots> = expand_tokens token v s"
        using expand_tokens_found [OF False assms(1) token] by simp
      finally show ?thesis
        by (simp only: scan)
    next
      case other
      then have here: "\<not> (token \<noteq> [] \<and> take ?n s = token)"
        by simp
      let ?rs = "scan_tokens token False (pos + 1) (tl s)"
      have "scan_tokens token (hd s = escape) (pos + 1) (tl s) = ?rs"
      proof (cases "hd s = escape")
        case True
        with other(1) have "\<not> (token \<noteq> [] \<and> take ?n (tl s) = token)"
          by simp
        then have "scan_tokens token True (pos + 1) (tl s) = ?rs"
          by (rule scan_tokens_no_token)
        with True show ?thesis
          by simp
      next
        case False
        then show ?thesis
          by simp
      qed
      then have scan: "scan_tokens token False pos s = ?rs"
        using scan_tokens_step [OF False here, of False pos] by simp
      have "\<forall>r \<in> set ?rs. pos + 1 \<le> fst r"
        using scan_tokens_from by blast
      then have not_here: "\<not> (?rs \<noteq> [] \<and> fst (hd ?rs) = pos)"
        by (cases ?rs) auto
      have "length (tl s) < length s"
        using False by simp
      then have ih: "rebuild token v (pos + 1) ?rs (tl s) = expand_tokens token v (tl s)"
        by (rule less)
      have "rebuild token v pos ?rs s = hd s # rebuild token v (pos + 1) ?rs (tl s)"
        using False not_here other(1) by (rule rebuild_keep)
      also have "\<dots> = hd s # expand_tokens token v (tl s)"
        using ih by simp
      also have "\<dots> = expand_tokens token v s"
        using expand_tokens_keep [OF False assms(1) other] by simp
      finally show ?thesis
        by (simp only: scan)
    qed
  qed
qed

lemma replaceRanges_found:
  assumes "token \<noteq> []" and "escape \<notin> set token" and "findUnescapedTokens s token \<noteq> []"
  shows "replaceRanges s (findUnescapedTokens s token) v = expand_tokens token v s"
proof -
  obtain r rs where rs: "findUnescapedTokens s token = r # rs"
    using assms(3) by (cases "findUnescapedTokens s token") auto
  then have "r \<in> set (scan_tokens token False 0 s)"
    by (simp add: findUnescapedTokens_def)
  then have "0 \<le> fst r \<and> snd r = fst r + length token
      \<and> take (length token) (drop (fst r - 0) s) = token"
    by (rule scan_tokens_text)
  then have "take (snd r - fst r) (drop (fst r) s) = token"
    by simp
  then show ?thesis
    using rebuild_scan_tokens [OF assms(1,2), of v 0 s] rs
    by (simp add: replaceRanges_def findUnescapedTokens_def)
qed

lemma take_whole: "take (length t) x = t \<Longrightarrow> length t \<le> length x"
proof -
  assume "take (length t) x = t"
  then have "length (take (length t) x) = length t"
    by simp
  then show ?thesis
    by (simp add: min_def split: if_splits)
qed

lemma take_before_escape:
  assumes "escape \<notin> set token"
  shows "(take (length token) (x @ escape # y) = token) = (take (length token) x = token)"
proof (cases "length token \<le> length x")
  case True
  then show ?thesis by simp
next
  case False
  then have "escape \<in> set (take (length token) (x @ escape # y))"
    by (cases "length token - length x") auto
  with assms have "take (length token) (x @ escape # y) \<noteq> token"
    by metis
  moreover have "take (length token) x \<noteq> token"
    using False take_whole by blast
  ultimately show ?thesis by simp
qed

lemma expand_tokens_around:
  assumes "token \<noteq> []" and "escape \<notin> set token"
  shows "expand_tokens token v (pre @ escape # token @ post)
       = expand_tokens token v pre @ token @ expand_tokens token v post"
proof (induction "length pre" arbitrary: pre rule: less_induct)
  case less
  let ?n = "length token"
  let ?rest = "escape # token @ post"
  show ?case
  proof (cases "pre = []")
    case True
    have "expand_tokens token v ?rest = token @ expand_tokens token v (drop (1 + ?n) ?rest)"
      by (rule expand_tokens_escaped) (simp_all add: assms(1))
    with True show ?thesis by simp
  next
    case False
    let ?s = "pre @ ?rest"
    have s: "?s \<noteq> []" by simp
    have hd: "hd ?s = hd pre" and tl: "tl ?s = tl pre @ ?rest"
      using False by simp_all
    have A: "(hd ?s = escape \<and> take ?n (tl ?s) = token)
           = (hd pre = escape \<and> take ?n (tl pre) = token)"
      by (simp only: hd tl take_before_escape [OF assms(2)])
    have B: "(take ?n ?s = token) = (take ?n pre = token)"
      by (rule take_before_escape [OF assms(2)])
    consider (escaped) "hd pre = escape \<and> take ?n (tl pre) = token"
      | (token) "\<not> (hd pre = escape \<and> take ?n (tl pre) = token)" "take ?n pre = token"
      | (other) "\<not> (hd pre = escape \<and> take ?n (tl pre) = token)" "take ?n pre \<noteq> token"
      by blast
    then show ?thesis
    proof cases
      case escaped
      then have "?n \<le> length (tl pre)"
        using take_whole by blast
      then have len: "1 + ?n \<le> length pre"
        using False by (cases pre) simp_all
      then have dr: "drop (1 + ?n) ?s = drop (1 + ?n) pre @ ?rest"
        by simp
      have "length (drop (1 + ?n) pre) < length pre"
        using False by simp
      then have ih: "expand_tokens token v (drop (1 + ?n) pre @ ?rest)
          = expand_tokens token v (drop (1 + ?n) pre) @ token @ expand_tokens token v post"
        by (rule less)
      have "expand_tokens token v ?s = token @ expand_tokens token v (drop (1 + ?n) ?s)"
        using s assms(1) escaped [folded A] by (rule expand_tokens_escaped)
      also have "\<dots> = token @ expand_tokens token v (drop (1 + ?n) pre)
          @ token @ expand_tokens token v post"
        by (simp only: dr ih)
      also have "\<dots> = expand_tokens token v pre @ token @ expand_tokens token v post"
        using expand_tokens_escaped [OF False assms(1) escaped, of v] by simp
      finally show ?thesis .
    next
      case token
      then have len: "?n \<le> length pre"
        using take_whole by blast
      then have dr: "drop ?n ?s = drop ?n pre @ ?rest"
        by simp
      have "length (drop ?n pre) < length pre"
        using False assms(1) by simp
      then have ih: "expand_tokens token v (drop ?n pre @ ?rest)
          = expand_tokens token v (drop ?n pre) @ token @ expand_tokens token v post"
        by (rule less)
      have "expand_tokens token v ?s = v @ expand_tokens token v (drop ?n ?s)"
        using s assms(1) token(1) [folded A] token(2) [folded B] by (rule expand_tokens_found)
      also have "\<dots> = v @ expand_tokens token v (drop ?n pre)
          @ token @ expand_tokens token v post"
        by (simp only: dr ih)
      also have "\<dots> = expand_tokens token v pre @ token @ expand_tokens token v post"
        using expand_tokens_found [OF False assms(1) token, of v] by simp
      finally show ?thesis .
    next
      case other
      have "length (tl pre) < length pre"
        using False by simp
      then have ih: "expand_tokens token v (tl pre @ ?rest)
          = expand_tokens token v (tl pre) @ token @ expand_tokens token v post"
        by (rule less)
      have "expand_tokens token v ?s = hd ?s # expand_tokens token v (tl ?s)"
        using s assms(1) other(1) [folded A] other(2) [folded B] by (rule expand_tokens_keep)
      also have "\<dots> = hd pre # expand_tokens token v (tl pre)
          @ token @ expand_tokens token v post"
        by (simp only: hd tl ih)
      also have "\<dots> = expand_tokens token v pre @ token @ expand_tokens token v post"
        using expand_tokens_keep [OF False assms(1) other, of v] by simp
      finally show ?thesis .
    qed
  qed
qed


lemma scan_tokens_shift:
  "scan_tokens token e (pos + k) s = map (\<lambda>r. (fst r + k, snd r + k)) (scan_tokens token e pos s)"
proof (induction "length s" arbitrary: s e pos rule: less_induct)
  case less
  let ?n = "length token"
  show ?case
  proof (cases "s = []")
    case True
    then show ?thesis by simp
  next
    case False
    show ?thesis
    proof (cases "token \<noteq> [] \<and> take ?n s = token")
      case True
      have "length (drop ?n s) < length s"
        using False True by simp
      then have ih: "scan_tokens token False (pos + ?n + k) (drop ?n s)
          = map (\<lambda>r. (fst r + k, snd r + k)) (scan_tokens token False (pos + ?n) (drop ?n s))"
        by (rule less)
      have sw: "pos + k + ?n = pos + ?n + k"
        by simp
      from True have tok: "token \<noteq> []" and here: "take ?n s = token"
        by simp_all
      show ?thesis
      proof (cases e)
        case True
        have "scan_tokens token True (pos + k) s
            = scan_tokens token False (pos + ?n + k) (drop ?n s)"
          using scan_tokens_escaped [OF False tok here, of "pos + k"] by (simp only: sw)
        also have "\<dots> = map (\<lambda>r. (fst r + k, snd r + k)) (scan_tokens token True pos s)"
          using scan_tokens_escaped [OF False tok here, of pos] ih by simp
        finally show ?thesis
          using True by simp
      next
        case no: False
        have "scan_tokens token False (pos + k) s
            = (pos + k, pos + k + ?n) # scan_tokens token False (pos + ?n + k) (drop ?n s)"
          using scan_tokens_found [OF False tok here, of "pos + k"] by (simp only: sw)
        also have "\<dots> = map (\<lambda>r. (fst r + k, snd r + k)) (scan_tokens token False pos s)"
          using scan_tokens_found [OF False tok here, of pos] ih by simp
        finally show ?thesis
          using no by simp
      qed
    next
      case no: False
      have "length (tl s) < length s"
        using False by simp
      then have ih: "scan_tokens token (hd s = escape) (pos + 1 + k) (tl s)
          = map (\<lambda>r. (fst r + k, snd r + k)) (scan_tokens token (hd s = escape) (pos + 1) (tl s))"
        by (rule less)
      have sw: "pos + k + 1 = pos + 1 + k"
        by simp
      show ?thesis
        using scan_tokens_step [OF False no, of e "pos + k"] scan_tokens_step [OF False no, of e pos] ih
        by (simp only: sw)
    qed
  qed
qed

lemma scan_tokens_empty_anywhere:
  "(scan_tokens token e pos s = []) = (scan_tokens token e 0 s = [])"
  using scan_tokens_shift [of token e 0 pos s] by simp

lemma scan_tokens_around:
  assumes "token \<noteq> []" and "escape \<notin> set token"
  shows "scan_tokens token e pos (pre @ escape # token @ post)
       = scan_tokens token e pos pre
         @ scan_tokens token False (pos + length pre + 1 + length token) post"
proof (induction "length pre" arbitrary: pre e pos rule: less_induct)
  case less
  let ?n = "length token"
  let ?rest = "escape # token @ post"
  show ?case
  proof (cases "pre = []")
    case True
    have "\<not> (token \<noteq> [] \<and> take ?n ?rest = token)"
      using no_escape_at_head [OF assms, of ?rest] by simp
    then have "scan_tokens token e pos ?rest = scan_tokens token True (pos + 1) (token @ post)"
      using scan_tokens_step [of ?rest token e pos] by simp
    also have "\<dots> = scan_tokens token False (pos + 1 + ?n) post"
      using scan_tokens_escaped [of "token @ post" token "pos + 1"] assms(1) by simp
    finally show ?thesis
      using True by simp
  next
    case False
    let ?s = "pre @ ?rest"
    have s: "?s \<noteq> []" by simp
    have hd: "hd ?s = hd pre" and tl: "tl ?s = tl pre @ ?rest"
      using False by simp_all
    have B: "(take ?n ?s = token) = (take ?n pre = token)"
      by (rule take_before_escape [OF assms(2)])
    show ?thesis
    proof (cases "take ?n pre = token")
      case True
      then have len: "?n \<le> length pre"
        using take_whole by blast
      then have dr: "drop ?n ?s = drop ?n pre @ ?rest"
        by simp
      have pos: "pos + ?n + length (drop ?n pre) + 1 + ?n = pos + length pre + 1 + ?n"
        using len by simp
      have "length (drop ?n pre) < length pre"
        using False assms(1) by simp
      then have "scan_tokens token False (pos + ?n) (drop ?n pre @ ?rest)
          = scan_tokens token False (pos + ?n) (drop ?n pre)
            @ scan_tokens token False (pos + ?n + length (drop ?n pre) + 1 + ?n) post"
        by (rule less)
      then have ih: "scan_tokens token False (pos + ?n) (drop ?n ?s)
          = scan_tokens token False (pos + ?n) (drop ?n pre)
            @ scan_tokens token False (pos + length pre + 1 + ?n) post"
        by (simp only: dr pos)
      have tok_s: "take ?n ?s = token"
        using True B by simp
      show ?thesis
      proof (cases e)
        case True
        then show ?thesis
          using scan_tokens_escaped [OF s assms(1) tok_s, of pos]
            scan_tokens_escaped [OF False assms(1) \<open>take ?n pre = token\<close>, of pos] ih
          by simp
      next
        case no: False
        then show ?thesis
          using scan_tokens_found [OF s assms(1) tok_s, of pos]
            scan_tokens_found [OF False assms(1) True, of pos] ih
          by simp
      qed
    next
      case no: False
      then have no_s: "\<not> (token \<noteq> [] \<and> take ?n ?s = token)"
        using B by simp
      from no have no_pre: "\<not> (token \<noteq> [] \<and> take ?n pre = token)"
        by simp
      have pos: "pos + 1 + length (tl pre) + 1 + ?n = pos + length pre + 1 + ?n"
        using False by (cases pre) simp_all
      have "length (tl pre) < length pre"
        using False by simp
      then have "scan_tokens token (hd pre = escape) (pos + 1) (tl pre @ ?rest)
          = scan_tokens token (hd pre = escape) (pos + 1) (tl pre)
            @ scan_tokens token False (pos + 1 + length (tl pre) + 1 + ?n) post"
        by (rule less)
      then have ih: "scan_tokens token (hd ?s = escape) (pos + 1) (tl ?s)
          = scan_tokens token (hd pre = escape) (pos + 1) (tl pre)
            @ scan_tokens token False (pos + length pre + 1 + ?n) post"
        by (simp only: hd tl pos)
      show ?thesis
        using scan_tokens_step [OF s no_s, of e pos] scan_tokens_step [OF False no_pre, of e pos] ih
        by simp
    qed
  qed
qed

lemma findUnescapedTokens_around:
  assumes "token \<noteq> []" and "escape \<notin> set token"
  shows "(findUnescapedTokens (pre @ escape # token @ post) token = [])
       = (findUnescapedTokens pre token = [] \<and> findUnescapedTokens post token = [])"
  using scan_tokens_around [OF assms, of False 0 pre post]
    scan_tokens_empty_anywhere [of token False "0 + length pre + 1 + length token" post]
  by (simp add: findUnescapedTokens_def)

lemma placeholder_token: "placeholder \<noteq> []" "escape \<notin> set placeholder"
  by (simp_all add: placeholder_def escape_def)

lemma caret_token: "caret \<noteq> []" "escape \<notin> set caret"
  by (simp_all add: caret_def escape_def)

text \<open>
  C5, as stated: after the replacement an escaped placeholder is in the result as the
  literal token, without the escape marker. In the string that is the escape marker
  and the placeholder and nothing else, no range is found, \<^verbatim>\<open>replaceRanges\<close> is
  not called, and the string is returned with the escape marker.
\<close>

theorem escaped_placeholder_counterexample:
  "replacePlaceholder (Some (escape # placeholder)) (Some ''X'')
     = (Some (escape # placeholder), False)
   \<and> escape # placeholder \<noteq> placeholder"
  by code_simp

text \<open>
  C5, amended. In a string with a placeholder right after the escape marker, content
  is never put in the place of that placeholder. When the string has an unescaped
  placeholder too, before or after, the result has the literal token without the
  escape marker there, between what the replacement makes of the text before and of
  the text after. When it has none, the string is returned as it is, with the escape
  marker.
\<close>

theorem replacePlaceholder_escaped:
  "replacePlaceholder (Some (pre @ escape # placeholder @ post)) v =
     (if findUnescapedTokens pre placeholder = [] \<and> findUnescapedTokens post placeholder = []
      then (Some (pre @ escape # placeholder @ post), False)
      else (Some (expand_tokens placeholder (js_string v) pre @ placeholder
                  @ expand_tokens placeholder (js_string v) post), True))"
proof -
  let ?s = "pre @ escape # placeholder @ post"
  have none: "(findUnescapedTokens ?s placeholder = [])
      = (findUnescapedTokens pre placeholder = [] \<and> findUnescapedTokens post placeholder = [])"
    using placeholder_token by (rule findUnescapedTokens_around)
  show ?thesis
  proof (cases "findUnescapedTokens ?s placeholder = []")
    case True
    then show ?thesis
      using none by (simp add: replacePlaceholder_def)
  next
    case False
    then have "replaceRanges ?s (findUnescapedTokens ?s placeholder) (js_string v)
        = expand_tokens placeholder (js_string v) ?s"
      using placeholder_token replaceRanges_found by blast
    also have "\<dots> = expand_tokens placeholder (js_string v) pre @ placeholder
        @ expand_tokens placeholder (js_string v) post"
      using placeholder_token by (rule expand_tokens_around)
    finally show ?thesis
      using False none by (simp add: replacePlaceholder_def)
  qed
qed

theorem replacePlaceholder_escaped_witness:
  "replacePlaceholder (Some (''a$#b'' @ escape # placeholder @ ''c'')) (Some ''X'')
     = (Some ''aXb$#c'', True)"
proof -
  have "findUnescapedTokens ''a$#b'' placeholder \<noteq> []"
    by code_simp
  moreover have "expand_tokens placeholder ''X'' ''a$#b'' = ''aXb''"
    by code_simp
  moreover have "expand_tokens placeholder ''X'' ''c'' = ''c''"
    by code_simp
  ultimately show ?thesis
    using replacePlaceholder_escaped [of "''a$#b''" "''c''" "Some ''X''"]
    by (simp add: placeholder_def)
qed

section \<open>Properties of node content setting\<close>

lemma children_setNodeContent [simp]:
  "children (fst (setNodeContent nd content)) = children nd"
  by (simp add: setNodeContent_def set_link_and_value_def Let_def split: option.splits)

lemma update_deepest_findDeepestNode:
  "(\<And>d. children (fst (f d)) = children d) \<Longrightarrow>
   findDeepestNode (fst (update_deepest f nd)) = fst (f (findDeepestNode nd))
   \<and> snd (update_deepest f nd) = snd (f (findDeepestNode nd))"
proof (induction f nd rule: update_deepest.induct)
  case (1 f nd)
  show ?case
  proof (cases "children nd = []")
    case True
    then show ?thesis
      using "1.prems" [of nd]
      by (simp add: update_deepest.simps [of f nd] findDeepestNode.simps [of nd]
            findDeepestNode.simps [of "fst (f nd)"])
  next
    case False
    then show ?thesis
      using "1.IH" [OF False "1.prems"]
      by (simp add: update_deepest.simps [of f nd] findDeepestNode.simps [of nd]
            findDeepestNode.simps [of "set_children nd _"] Let_def)
  qed
qed

lemma url_example: "rx_test reUrl ''example.com''"
  by code_simp

lemma proto_example: "\<not> rx_test_prefix reProto ''example.com''"
  by code_simp

lemma url_mail_example: "\<not> rx_test reUrl ''user@example.com''"
  by code_simp

lemma email_example: "rx_test reEmail ''user@example.com''"
  by code_simp

text \<open>
  On a node that has a name, is anchor-like (the name is \<^verbatim>\<open>a\<close> up to case, or the
  node declares an attribute \<^verbatim>\<open>href\<close>) and has no unescaped caret in its value,
  node content setting returns: with \<^verbatim>\<open>example.com\<close> it sets \<^verbatim>\<open>href\<close> to
  \<^verbatim>\<open>http://example.com\<close>, with \<^verbatim>\<open>user@example.com\<close> to
  \<^verbatim>\<open>mailto:user@example.com\<close>, and the value to the content; with a content that
  matches neither pattern it changes no attribute and sets the value.
\<close>

lemma setNodeContent_named_link:
  assumes "name nd = Some n"
    and "toLowerCase n = ''a'' \<or> hasAttribute nd ''href''"
    and "\<forall>s. nvalue nd = Some s \<longrightarrow> findUnescapedTokens s caret = []"
  shows "setNodeContent nd (Some ''example.com'') =
           (set_value (setAttribute nd ''href'' (Some ''http://example.com''))
              (Some ''example.com''), None)
         \<and> setNodeContent nd (Some ''user@example.com'') =
           (set_value (setAttribute nd ''href'' (Some ''mailto:user@example.com''))
              (Some ''user@example.com''), None)
         \<and> (\<not> rx_test reUrl c \<and> \<not> rx_test reEmail c \<longrightarrow>
              setNodeContent nd (Some c) = (set_value nd (Some c), None))"
proof -
  have no_caret: "setNodeContent nd v = set_link_and_value nd v" for v
    using assms(3) by (cases "nvalue nd") (simp_all add: setNodeContent_def)
  have "setNodeContent nd (Some ''example.com'') =
           (set_value (setAttribute nd ''href'' (Some ''http://example.com''))
              (Some ''example.com''), None)"
    using assms(1,2)
    by (auto simp add: no_caret set_link_and_value_def url_example proto_example
          simp del: rx_test.simps rx_test_prefix.simps)
  moreover have "setNodeContent nd (Some ''user@example.com'') =
           (set_value (setAttribute nd ''href'' (Some ''mailto:user@example.com''))
              (Some ''user@example.com''), None)"
    using assms(1,2)
    by (auto simp add: no_caret set_link_and_value_def url_mail_example email_example
          simp del: rx_test.simps rx_test_prefix.simps)
  moreover have "setNodeContent nd (Some c) = (set_value nd (Some c), None)"
    if "\<not> rx_test reUrl c \<and> \<not> rx_test reEmail c"
    using that assms(1)
    by (simp add: no_caret set_link_and_value_def del: rx_test.simps rx_test_prefix.simps)
  ultimately show ?thesis
    by blast
qed

text \<open>
  On a node that has no name and no unescaped caret in its value, node content
  setting throws, whatever the content, and the node is as it was.
\<close>

lemma setNodeContent_nameless:
  assumes "name nd = None"
    and "\<forall>s. nvalue nd = Some s \<longrightarrow> findUnescapedTokens s caret = []"
  shows "setNodeContent nd content = (nd, Some TypeError)"
  using assms by (cases "nvalue nd") (simp_all add: setNodeContent_def set_link_and_value_def)

text \<open>
  C4 says that node content setting with the content \<^verbatim>\<open>example.com\<close> sets
  \<^verbatim>\<open>href\<close> to \<^verbatim>\<open>http://example.com\<close> and the value to the content on every node
  that has no unescaped caret and is anchor-like, be it by its name or by a declared
  attribute \<^verbatim>\<open>href\<close>. The node below, \<^verbatim>\<open>[href=#]\<close>, has no name and declares
  \<^verbatim>\<open>href\<close>; it has no value, so no caret. The call throws at
  \<^verbatim>\<open>node.name.toLowerCase()\<close>, with \<^verbatim>\<open>example.com\<close>, with
  \<^verbatim>\<open>user@example.com\<close> and with a content that matches neither pattern, and leaves
  the node as it was: neither \<^verbatim>\<open>href\<close> nor the value is set. The call is the one
  that \<^verbatim>\<open>insert\<close> makes on the tree whose only node below the root is this node.
\<close>

theorem setNodeContent_nameless_link:
  "hasAttribute (Node None None [(''href'', Some ''#'')] [] None) ''href''
   \<and> rx_test reUrl ''example.com''
   \<and> rx_test reEmail ''user@example.com''
   \<and> setNodeContent (Node None None [(''href'', Some ''#'')] [] None) (Some ''example.com'')
      = (Node None None [(''href'', Some ''#'')] [] None, Some TypeError)
   \<and> setNodeContent (Node None None [(''href'', Some ''#'')] [] None)
        (Some ''user@example.com'')
      = (Node None None [(''href'', Some ''#'')] [] None, Some TypeError)
   \<and> setNodeContent (Node None None [(''href'', Some ''#'')] [] None) (Some ''hello world'')
      = (Node None None [(''href'', Some ''#'')] [] None, Some TypeError)
   \<and> insert_tree (Node None None [] [Node None None [(''href'', Some ''#'')] [] None] None)
        (Arr [''example.com''])
      = (Node None None [] [Node None None [(''href'', Some ''#'')] [] None] None,
         Some TypeError)"
  by code_simp

text \<open>
  C10. When the value of the node has an unescaped caret (so the value is not empty),
  node content setting passes the whole list of ranges to \<^verbatim>\<open>replaceRanges\<close>,
  which replaces every unescaped caret of the value with the content, in one pass
  over the value, and returns: the name, the attributes, \<^verbatim>\<open>href\<close> among them, the
  children and the repeat state are those of the node, whatever the name of the node
  and whatever the content.
\<close>

theorem setNodeContent_caret:
  assumes "nvalue nd = Some s" and "findUnescapedTokens s caret \<noteq> []"
  shows "setNodeContent nd content
           = (set_value nd
                (Some (replaceRanges s (findUnescapedTokens s caret) (js_string content))),
              None)
         \<and> replaceRanges s (findUnescapedTokens s caret) (js_string content)
           = expand_tokens caret (js_string content) s
         \<and> s \<noteq> []
         \<and> name (fst (setNodeContent nd content)) = name nd
         \<and> attributes (fst (setNodeContent nd content)) = attributes nd
         \<and> children (fst (setNodeContent nd content)) = children nd
         \<and> repeat (fst (setNodeContent nd content)) = repeat nd"
proof -
  from assms(2) have s: "s \<noteq> []"
    by auto
  have all: "replaceRanges s (findUnescapedTokens s caret) (js_string content)
      = expand_tokens caret (js_string content) s"
    using caret_token assms(2) by (rule replaceRanges_found)
  have "setNodeContent nd content
      = (set_value nd
           (Some (replaceRanges s (findUnescapedTokens s caret) (js_string content))),
         None)"
    using assms s by (simp add: setNodeContent_def)
  then show ?thesis
    using s all by (cases nd) simp
qed

theorem setNodeContent_caret_witness:
  "nvalue (Node (Some ''a'') (Some ''x|y|z'') [(''href'', Some ''#'')] [] None) = Some ''x|y|z''
   \<and> findUnescapedTokens ''x|y|z'' caret \<noteq> []
   \<and> rx_test reUrl ''example.com''
   \<and> setNodeContent (Node (Some ''a'') (Some ''x|y|z'') [(''href'', Some ''#'')] [] None)
        (Some ''example.com'')
      = (Node (Some ''a'') (Some ''xexample.comyexample.comz'') [(''href'', Some ''#'')] [] None,
         None)"
proof -
  let ?nd = "Node (Some ''a'') (Some ''x|y|z'') [(''href'', Some ''#'')] [] None"
  have a: "nvalue ?nd = Some ''x|y|z''"
    by simp
  have b: "findUnescapedTokens ''x|y|z'' caret \<noteq> []"
    by code_simp
  have c: "expand_tokens caret ''example.com'' ''x|y|z'' = ''xexample.comyexample.comz''"
    by code_simp
  from a b c url_example setNodeContent_caret [OF a b, of "Some ''example.com''"]
  show ?thesis
    by (simp del: rx_test.simps)
qed

section \<open>Properties of the content distributor\<close>

lemma skeleton_rebuilt:
  "map skeleton ch = map skeleton (children nd) \<Longrightarrow>
   skeleton (set_children nd' ch) = skeleton nd" if "skeleton nd' = skeleton nd"
  using that by (simp add: skeleton_set_children) (metis children_skeleton set_children_same)

lemma skeleton_insert_walk [simp]:
  "map skeleton (fst (insert_walk content cs)) = map skeleton cs"
proof (induction content cs rule: insert_walk.induct)
  case (1 content)
  show ?case by simp
next
  case (2 content ctx "next")
  obtain ctx' u e where visit: "insert_visit content ctx = (ctx', u, e)"
    by (cases "insert_visit content ctx") auto
  have same: "skeleton ctx' = skeleton ctx"
    using skeleton_insert_visit [of content ctx] by (simp add: visit)
  show ?case
  proof (cases e)
    case (Some err)
    with visit same show ?thesis
      by simp
  next
    case None
    obtain ch u1 e1 where below: "insert_walk content (children ctx') = (ch, u1, e1)"
      by (cases "insert_walk content (children ctx')") auto
    have "map skeleton ch = map skeleton (children ctx')"
      using "2.IH"(1) [of ctx' "(u, e)" u e] visit None below by simp
    also have "\<dots> = map skeleton (children ctx)"
      by (metis children_skeleton same)
    finally have node: "skeleton (set_children ctx' ch) = skeleton ctx"
      using same by (rule skeleton_rebuilt [rotated])
    show ?thesis
    proof (cases e1)
      case (Some err)
      with visit None below node show ?thesis
        by simp
    next
      case no_error: None
      obtain rest u2 e2 where after: "insert_walk content next = (rest, u2, e2)"
        by (cases "insert_walk content next") auto
      have "map skeleton rest = map skeleton next"
        using "2.IH"(2) [of ctx' "(u, e)" u e ch "(u1, e1)" u1 e1] visit None below no_error after
        by simp
      with visit None below no_error after node show ?thesis
        by simp
    qed
  qed
qed

text \<open>
  C6. \<^verbatim>\<open>insert(tree, [])\<close> and \<^verbatim>\<open>insert(tree, "")\<close> do nothing: the call
  returns, and the result is the tree that was passed, with the same structure,
  values and attributes.
\<close>

theorem insert_empty_content_noop:
  "insert_tree tree (Arr []) = (tree, None) \<and> insert_tree tree (Str []) = (tree, None)"
  by (simp add: insert_tree_def)

text \<open>
  C9. \<^verbatim>\<open>insert\<close> creates no node and removes none: for every tree and every
  content argument, the tree after \<^verbatim>\<open>insert\<close>, be it after a return or after a
  throw, has the nodes, the names, the repeat states and the parent and children
  relation of the tree before; the tree differs in values and attributes only.
\<close>

theorem insert_keeps_structure:
  "skeleton (fst (insert_tree tree content)) = skeleton tree"
proof (cases content)
  case (Arr items)
  obtain ch u e where walk: "insert_walk items (children tree) = (ch, u, e)"
    by (cases "insert_walk items (children tree)") auto
  have "map skeleton ch = map skeleton (children tree)"
    using skeleton_insert_walk [of items "children tree"] by (simp add: walk)
  then have t1: "skeleton (set_children tree ch) = skeleton tree"
    by (rule skeleton_rebuilt [OF refl])
  have "skeleton (fst (update_deepest (\<lambda>d. setNodeContent d (Some (join_lines items)))
           (set_children tree ch)))
      = skeleton (set_children tree ch)"
    by (rule skeleton_update_deepest) simp
  with t1 Arr walk show ?thesis
    by (cases e) (simp_all add: insert_tree_def)
qed (simp_all add: insert_tree_def)

lemma has_implicit_Cons:
  "has_implicit (c # cs) = (is_implicit c \<or> has_implicit (children c) \<or> has_implicit cs)"
  by (auto simp: has_implicit_def nodes_of_children [of c])

lemma insert_visit_not_implicit:
  "\<not> is_implicit c \<Longrightarrow> insert_visit items c = (c, False, None)"
  by (cases "repeat c") (simp_all add: insert_visit_def is_implicit_def)

lemma insert_visit_implicit:
  "repeat c = Some r \<Longrightarrow> implicit r \<Longrightarrow>
   insert_visit items c =
     (fst (insertContent c (item items (index r))), True,
      snd (insertContent c (item items (index r))))"
  by (cases "insertContent c (item items (index r))") (simp add: insert_visit_def)

lemma insert_walk_no_implicit:
  "\<not> has_implicit cs \<Longrightarrow> insert_walk items cs = (cs, False, None)"
proof (induction items cs rule: insert_walk.induct)
  case (1 content)
  show ?case by simp
next
  case (2 content ctx "next")
  from "2.prems" have c: "\<not> is_implicit ctx" and below: "\<not> has_implicit (children ctx)"
    and rest: "\<not> has_implicit next"
    by (simp_all add: has_implicit_Cons)
  have visit: "insert_visit content ctx = (ctx, False, None)"
    using c by (rule insert_visit_not_implicit)
  have w1: "insert_walk content (children ctx) = (children ctx, False, None)"
    using "2.IH"(1) [of ctx "(False, None)" False None] below by (simp add: visit)
  have w2: "insert_walk content next = (next, False, None)"
    using "2.IH"(2) [of ctx "(False, None)" False None "children ctx" "(False, None)" False None]
      rest
    by (simp add: visit w1)
  show ?case
    by (simp add: visit w1 w2)
qed

lemma update_deepest_same:
  "fst (f (findDeepestNode nd)) = findDeepestNode nd \<Longrightarrow> fst (update_deepest f nd) = nd"
proof (induction f nd rule: update_deepest.induct)
  case (1 f nd)
  show ?case
  proof (cases "children nd = []")
    case True
    then show ?thesis
      using "1.prems"
      by (simp add: update_deepest.simps [of f nd] findDeepestNode.simps [of nd])
  next
    case False
    then have "fst (f (findDeepestNode (last (children nd)))) = findDeepestNode (last (children nd))"
      using "1.prems" by (simp add: findDeepestNode.simps [of nd])
    then have "fst (update_deepest f (last (children nd))) = last (children nd)"
      using "1.IH" [OF False] by simp
    with False show ?thesis
      by (simp add: update_deepest.simps [of f nd] Let_def)
  qed
qed

lemma snd_update_deepest: "snd (update_deepest f nd) = snd (f (findDeepestNode nd))"
proof (induction f nd rule: update_deepest.induct)
  case (1 f nd)
  show ?case
  proof (cases "children nd = []")
    case True
    then show ?thesis
      by (simp add: update_deepest.simps [of f nd] findDeepestNode.simps [of nd])
  next
    case False
    then show ?thesis
      using "1.IH" [OF False]
      by (simp add: update_deepest.simps [of f nd] findDeepestNode.simps [of nd] Let_def)
  qed
qed

lemma update_deepest_throws:
  assumes "f (findDeepestNode nd) = (findDeepestNode nd, e)"
  shows "update_deepest f nd = (nd, e)"
proof -
  have "fst (update_deepest f nd) = nd"
    by (rule update_deepest_same) (simp add: assms)
  moreover have "snd (update_deepest f nd) = e"
    by (simp add: snd_update_deepest assms)
  ultimately show ?thesis
    by (cases "update_deepest f nd") simp
qed

text \<open>
  A tree without an implicitly repeated node, and a content list that is not empty:
  the walk changes nothing, and \<^verbatim>\<open>insert\<close> is node content setting with the items
  joined by newlines, once, on the node that \<^verbatim>\<open>findDeepestNode\<close> reaches from the
  root by following the last child. It returns when node content setting returns, and
  throws when node content setting throws.
\<close>

lemma insert_tree_no_implicit:
  assumes "\<forall>n \<in> set (nodes_of tree). \<not> is_implicit n" and "items \<noteq> []"
  shows "insert_tree tree (Arr items) =
           update_deepest (\<lambda>d. setNodeContent d (Some (join_lines items))) tree
         \<and> findDeepestNode (fst (insert_tree tree (Arr items))) =
           fst (setNodeContent (findDeepestNode tree) (Some (join_lines items)))
         \<and> snd (insert_tree tree (Arr items)) =
           snd (setNodeContent (findDeepestNode tree) (Some (join_lines items)))"
proof -
  have "\<not> has_implicit (children tree)"
    using assms(1) by (auto simp: has_implicit_def nodes_of_children [of tree])
  then have "insert_walk items (children tree) = (children tree, False, None)"
    by (rule insert_walk_no_implicit)
  then have eq: "insert_tree tree (Arr items) =
      update_deepest (\<lambda>d. setNodeContent d (Some (join_lines items))) tree"
    using assms(2) by (simp add: insert_tree_def)
  have "findDeepestNode
          (fst (update_deepest (\<lambda>d. setNodeContent d (Some (join_lines items))) tree))
        = fst (setNodeContent (findDeepestNode tree) (Some (join_lines items)))
      \<and> snd (update_deepest (\<lambda>d. setNodeContent d (Some (join_lines items))) tree)
        = snd (setNodeContent (findDeepestNode tree) (Some (join_lines items)))"
    by (rule update_deepest_findDeepestNode) simp
  with eq show ?thesis
    by simp
qed

text \<open>
  When the deepest node of such a tree has no name, and its value no unescaped
  caret, \<^verbatim>\<open>insert\<close> throws and the tree is as it was.
\<close>

lemma insert_tree_nameless_deepest:
  assumes "\<forall>n \<in> set (nodes_of tree). \<not> is_implicit n" and "items \<noteq> []"
    and "name (findDeepestNode tree) = None"
    and "\<forall>s. nvalue (findDeepestNode tree) = Some s \<longrightarrow> findUnescapedTokens s caret = []"
  shows "insert_tree tree (Arr items) = (tree, Some TypeError)"
proof -
  have "setNodeContent (findDeepestNode tree) (Some (join_lines items))
      = (findDeepestNode tree, Some TypeError)"
    using assms(3,4) by (rule setNodeContent_nameless)
  then have "update_deepest (\<lambda>d. setNodeContent d (Some (join_lines items))) tree
      = (tree, Some TypeError)"
    by (rule update_deepest_throws)
  then show ?thesis
    using insert_tree_no_implicit [OF assms(1,2)] by simp
qed

lemma insert_tree_no_implicit_example:
  "insert_tree (Node None None []
       [Node (Some ''ul'') None []
          [Node (Some ''b'') None [] [] None, Node (Some ''li'') None [] [] None] None]
       None) (Arr [''x'', ''y''])
     = (Node None None []
       [Node (Some ''ul'') None []
          [Node (Some ''b'') None [] [] None,
           Node (Some ''li'') (Some (''x'' @ CHR 0x0A # ''y'')) [] [] None]
          None]
       None, None)"
  by code_simp

text \<open>
  C3 says that on a tree without an implicitly repeated node, and with a content list
  that is not empty, \<^verbatim>\<open>insert\<close> sets the items joined by newlines on the deepest
  node of the tree. In the tree \<^verbatim>\<open>div > {hi}\<close> below no node is implicitly repeated,
  and the node that \<^verbatim>\<open>findDeepestNode\<close> reaches is the text node, which has no name
  and no caret in its value: \<^verbatim>\<open>insert\<close> with the two items \<^verbatim>\<open>x\<close> and \<^verbatim>\<open>y\<close>
  throws at \<^verbatim>\<open>node.name.toLowerCase()\<close> and the tree is as it was, so the content is
  not inserted at all. The same happens on a tree that is a root without children, the
  root of a parsed abbreviation having no name.
\<close>

theorem insert_nameless_deepest_throws:
  "map is_implicit
     (nodes_of (Node None None []
        [Node (Some ''div'') None [] [Node None (Some ''hi'') [] [] None] None] None))
     = [False, False, False]
   \<and> findDeepestNode (Node None None []
        [Node (Some ''div'') None [] [Node None (Some ''hi'') [] [] None] None] None)
     = Node None (Some ''hi'') [] [] None
   \<and> insert_tree (Node None None []
        [Node (Some ''div'') None [] [Node None (Some ''hi'') [] [] None] None] None)
        (Arr [''x'', ''y''])
     = (Node None None []
          [Node (Some ''div'') None [] [Node None (Some ''hi'') [] [] None] None] None,
        Some TypeError)
   \<and> insert_tree (Node None None [] [] None) (Arr [''x'', ''y''])
     = (Node None None [] [] None, Some TypeError)"
  by code_simp

section \<open>Properties of node content insertion\<close>

lemma replacePlaceholder_fill:
  "replacePlaceholder v content = (fill_string content v, has_placeholder v)"
proof (cases v)
  case None
  then show ?thesis
    by (simp add: replacePlaceholder_def fill_string_def has_placeholder_def)
next
  case (Some s)
  show ?thesis
  proof (cases "findUnescapedTokens s placeholder = []")
    case True
    with Some show ?thesis
      by (simp add: replacePlaceholder_def fill_string_def has_placeholder_def)
  next
    case False
    then have "replaceRanges s (findUnescapedTokens s placeholder) (js_string content)
        = expand_tokens placeholder (js_string content) s"
      using placeholder_token replaceRanges_found by blast
    with Some False show ?thesis
      by (simp add: replacePlaceholder_def fill_string_def has_placeholder_def)
  qed
qed

lemma fill_string_not_truthy:
  "\<not> truthy v \<Longrightarrow> fill_string content v = v \<and> \<not> has_placeholder v"
  by (cases v) (auto simp: truthy_def fill_string_def has_placeholder_def)

lemma fill_string_no_placeholder: "\<not> has_placeholder v \<Longrightarrow> fill_string content v = v"
  by (cases v) (auto simp: fill_string_def has_placeholder_def)

lemma set_by_name_declared:
  "k \<notin> set (map fst xs) \<Longrightarrow> set_by_name k v (xs @ (k, w) # ys) = xs @ (k, v) # ys"
  by (induction xs) auto

lemma replace_attributes_fill:
  "attributes nd = seen @ todo \<Longrightarrow> distinct (map fst (seen @ todo)) \<Longrightarrow>
   replace_attributes content todo (nd, b) =
     (set_attributes nd (seen @ map (\<lambda>a. (fst a, fill_string content (snd a))) todo),
      b \<or> (\<exists>a \<in> set todo. truthy (snd a) \<and> has_placeholder (snd a)))"
proof (induction todo arbitrary: nd seen b)
  case Nil
  then show ?case
    by (cases nd) simp
next
  case (Cons a rest)
  let ?f = "\<lambda>a. (fst a, fill_string content (snd a))"
  show ?case
  proof (cases "truthy (snd a)")
    case True
    let ?nd = "setAttribute nd (fst a) (fill_string content (snd a))"
    have "fst a \<notin> set (map fst seen)"
      using Cons.prems(2) by auto
    then have "set_by_name (fst a) (fill_string content (snd a)) (seen @ (fst a, snd a) # rest)
        = seen @ ?f a # rest"
      by (rule set_by_name_declared)
    then have attrs: "attributes ?nd = (seen @ [?f a]) @ rest"
      using Cons.prems(1) by (simp add: setAttribute_def)
    have "distinct (map fst ((seen @ [?f a]) @ rest))"
      using Cons.prems(2) by simp
    with attrs have "replace_attributes content rest (?nd, b \<or> has_placeholder (snd a)) =
        (set_attributes ?nd ((seen @ [?f a]) @ map ?f rest),
         (b \<or> has_placeholder (snd a))
         \<or> (\<exists>a \<in> set rest. truthy (snd a) \<and> has_placeholder (snd a)))"
      by (rule Cons.IH)
    with True show ?thesis
      by (auto simp: replacePlaceholder_fill setAttribute_def)
  next
    case False
    then have same: "?f a = a" and none: "\<not> has_placeholder (snd a)"
      using fill_string_not_truthy [of "snd a" content] by simp_all
    have "attributes nd = (seen @ [a]) @ rest" "distinct (map fst ((seen @ [a]) @ rest))"
      using Cons.prems by simp_all
    then have "replace_attributes content rest (nd, b) =
        (set_attributes nd ((seen @ [a]) @ map ?f rest),
         b \<or> (\<exists>a \<in> set rest. truthy (snd a) \<and> has_placeholder (snd a)))"
      by (rule Cons.IH)
    with False same show ?thesis
      by simp
  qed
qed

lemma insertContentIntoPlaceholder_fill:
  assumes "distinct (map fst (attributes nd))"
  shows "insertContentIntoPlaceholder nd content =
     (set_attributes (set_value nd (fill_string content (nvalue nd)))
        (map (\<lambda>a. (fst a, fill_string content (snd a))) (attributes nd)),
      node_has_placeholder nd)"
proof -
  let ?nd1 = "set_value nd (fill_string content (nvalue nd))"
  have "attributes ?nd1 = [] @ attributes nd" "distinct (map fst ([] @ attributes nd))"
    using assms by simp_all
  then have "replace_attributes content (attributes nd) (?nd1, has_placeholder (nvalue nd)) =
     (set_attributes ?nd1 ([] @ map (\<lambda>a. (fst a, fill_string content (snd a))) (attributes nd)),
      has_placeholder (nvalue nd)
      \<or> (\<exists>a \<in> set (attributes nd). truthy (snd a) \<and> has_placeholder (snd a)))"
    by (rule replace_attributes_fill)
  then show ?thesis
    by (simp add: insertContentIntoPlaceholder_def replacePlaceholder_fill Let_def
          node_has_placeholder_def)
qed

lemma fill_node_children:
  "set_children
     (set_attributes (set_value nd (fill_string content (nvalue nd)))
        (map (\<lambda>a. (fst a, fill_string content (snd a))) (attributes nd)))
     (map (fill_node content) (children nd)) = fill_node content nd"
  by (cases nd) simp

lemma placeholder_walk_fill:
  "\<forall>d \<in> set (concat (map nodes_of cs)). distinct (map fst (attributes d)) \<Longrightarrow>
   placeholder_walk content cs =
     (map (fill_node content) cs,
      \<exists>d \<in> set (concat (map nodes_of cs)). node_has_placeholder d)"
proof (induction content cs rule: placeholder_walk.induct)
  case (1 content)
  show ?case by simp
next
  case (2 content c cs)
  from "2.prems" have c: "distinct (map fst (attributes c))"
    and below: "\<forall>d \<in> set (concat (map nodes_of (children c))). distinct (map fst (attributes d))"
    and rest: "\<forall>d \<in> set (concat (map nodes_of cs)). distinct (map fst (attributes d))"
    by (auto simp: nodes_of_children [of c])
  let ?r = "insertContentIntoPlaceholder c content"
  have r: "?r = (set_attributes (set_value c (fill_string content (nvalue c)))
        (map (\<lambda>a. (fst a, fill_string content (snd a))) (attributes c)),
      node_has_placeholder c)"
    using c by (rule insertContentIntoPlaceholder_fill)
  have ch: "children (fst ?r) = children c"
    by simp
  have w1: "placeholder_walk content (children (fst ?r)) =
     (map (fill_node content) (children c),
      \<exists>d \<in> set (concat (map nodes_of (children c))). node_has_placeholder d)"
    using "2.IH"(1) [OF refl] below by (simp only: ch)
  have w2: "placeholder_walk content cs =
     (map (fill_node content) cs, \<exists>d \<in> set (concat (map nodes_of cs)). node_has_placeholder d)"
    using "2.IH"(2) [OF refl refl] rest by simp
  have "set_children (fst ?r) (map (fill_node content) (children c)) = fill_node content c"
    by (simp only: r fst_conv fill_node_children)
  then show ?case
    using w1 w2 r by (auto simp: Let_def nodes_of_children [of c])
qed

lemma fill_node_unchanged:
  "\<forall>d \<in> set (nodes_of nd). \<not> node_has_placeholder d \<Longrightarrow> fill_node content nd = nd"
proof (induction nd)
  case (Node n v a ch r)
  from Node.prems have own: "\<not> node_has_placeholder (Node n v a ch r)"
    by simp
  then have "fill_string content v = v"
    by (simp add: node_has_placeholder_def fill_string_no_placeholder)
  moreover have "map (\<lambda>attr. (fst attr, fill_string content (snd attr))) a = a"
  proof (rule map_idI)
    fix attr assume "attr \<in> set a"
    with own have "\<not> (truthy (snd attr) \<and> has_placeholder (snd attr))"
      by (auto simp: node_has_placeholder_def)
    then have "fill_string content (snd attr) = snd attr"
      using fill_string_not_truthy fill_string_no_placeholder by blast
    then show "(fst attr, fill_string content (snd attr)) = attr"
      by simp
  qed
  moreover have "map (fill_node content) ch = ch"
  proof (rule map_idI)
    fix c assume c: "c \<in> set ch"
    then have "\<forall>d \<in> set (nodes_of c). \<not> node_has_placeholder d"
      using Node.prems by auto
    with c show "fill_node content c = c"
      by (rule Node.IH)
  qed
  ultimately show ?case
    by simp
qed

lemma insertContent_fill:
  assumes "\<forall>d \<in> set (nodes_of nd). distinct (map fst (attributes d))"
  shows "insertContent nd content =
     (if \<exists>d \<in> set (nodes_of nd). node_has_placeholder d then (fill_node content nd, None)
      else update_deepest (\<lambda>d. setNodeContent d content) nd)"
proof -
  let ?r = "insertContentIntoPlaceholder nd content"
  from assms have own: "distinct (map fst (attributes nd))"
    and below: "\<forall>d \<in> set (concat (map nodes_of (children nd))). distinct (map fst (attributes d))"
    by (auto simp: nodes_of_children [of nd])
  have r: "?r = (set_attributes (set_value nd (fill_string content (nvalue nd)))
        (map (\<lambda>a. (fst a, fill_string content (snd a))) (attributes nd)),
      node_has_placeholder nd)"
    using own by (rule insertContentIntoPlaceholder_fill)
  let ?below = "\<exists>d \<in> set (concat (map nodes_of (children nd))). node_has_placeholder d"
  have w: "placeholder_walk content (children nd) = (map (fill_node content) (children nd), ?below)"
    using below by (rule placeholder_walk_fill)
  have nd1: "set_children (fst ?r) (map (fill_node content) (children nd)) = fill_node content nd"
    by (simp only: r fst_conv fill_node_children)
  have found: "(snd ?r \<or> ?below) = (\<exists>d \<in> set (nodes_of nd). node_has_placeholder d)"
    by (auto simp: r nodes_of_children [of nd])
  have "insertContent nd content =
      (if \<not> (snd ?r \<or> snd (placeholder_walk content (children nd)))
       then update_deepest (\<lambda>d. setNodeContent d content)
              (set_children (fst ?r) (fst (placeholder_walk content (children nd))))
       else (set_children (fst ?r) (fst (placeholder_walk content (children nd))), None))"
    by (simp add: insertContent_def Let_def)
  then have unfolded: "insertContent nd content =
      (if \<not> (\<exists>d \<in> set (nodes_of nd). node_has_placeholder d)
       then update_deepest (\<lambda>d. setNodeContent d content) (fill_node content nd)
       else (fill_node content nd, None))"
    by (simp only: w fst_conv snd_conv nd1 found)
  show ?thesis
  proof (cases "\<exists>d \<in> set (nodes_of nd). node_has_placeholder d")
    case True
    then show ?thesis
      by (simp only: unfolded) simp
  next
    case False
    then have "fill_node content nd = nd"
      by (intro fill_node_unchanged) simp
    with False show ?thesis
      by (simp only: unfolded) simp
  qed
qed

text \<open>
  Node content insertion on a subtree without a placeholder, whose deepest node has
  no name and no unescaped caret in its value: the call throws and the subtree is as
  it was.
\<close>

lemma insertContent_nameless_deepest:
  assumes "\<forall>d \<in> set (nodes_of nd). distinct (map fst (attributes d))"
    and "\<forall>d \<in> set (nodes_of nd). \<not> node_has_placeholder d"
    and "name (findDeepestNode nd) = None"
    and "\<forall>s. nvalue (findDeepestNode nd) = Some s \<longrightarrow> findUnescapedTokens s caret = []"
  shows "insertContent nd content = (nd, Some TypeError)"
proof -
  have "setNodeContent (findDeepestNode nd) content = (findDeepestNode nd, Some TypeError)"
    using assms(3,4) by (rule setNodeContent_nameless)
  then have "update_deepest (\<lambda>d. setNodeContent d content) nd = (nd, Some TypeError)"
    by (rule update_deepest_throws)
  then show ?thesis
    using insertContent_fill [OF assms(1), of content] assms(2) by simp
qed

text \<open>
  Two implicitly repeated nodes with named descendants: the first has placeholders,
  in its value, in an attribute value and in the value of its child, and each is
  replaced with the first item; the second has none, and the second item is set on
  its deepest descendant.
\<close>

lemma insert_tree_implicit_example:
  "insert_tree (Node None None []
        [Node (Some ''li'') (Some ''x$#'') [(''title'', Some ''$#''), (''id'', Some [])]
           [Node (Some ''span'') (Some ''$#'') [] [] None]
           (Some \<lparr>count = Some 2, implicit = True, rvalue = 1, index = 0\<rparr>),
         Node (Some ''li'') None [(''title'', Some ''t'')] [Node (Some ''b'') None [] [] None]
           (Some \<lparr>count = Some 2, implicit = True, rvalue = 2, index = 1\<rparr>)] None)
        (Arr [''A'', ''B''])
      = (Node None None []
        [Node (Some ''li'') (Some ''xA'') [(''title'', Some ''A''), (''id'', Some [])]
           [Node (Some ''span'') (Some ''A'') [] [] None]
           (Some \<lparr>count = Some 2, implicit = True, rvalue = 1, index = 0\<rparr>),
         Node (Some ''li'') None [(''title'', Some ''t'')]
           [Node (Some ''b'') (Some ''B'') [] [] None]
           (Some \<lparr>count = Some 2, implicit = True, rvalue = 2, index = 1\<rparr>)] None, None)"
  by code_simp

text \<open>
  C2 says that \<^verbatim>\<open>insert\<close>, on a node with the flag \<^verbatim>\<open>repeat.implicit\<close>, replaces
  the unescaped placeholders of the subtree of the node with the item
  \<^verbatim>\<open>content[node.repeat.index]\<close> and, if and only if the subtree has no unescaped
  placeholder, sets the item on the deepest descendant of the node. In the tree
  \<^verbatim>\<open>li > {hi}\<close> below, \<^verbatim>\<open>li\<close> is implicitly repeated with the index 0, and
  no value or attribute value of its subtree has a placeholder. Its deepest descendant is
  the text node, which has no name and no caret in its value: node content insertion
  with the item \<^verbatim>\<open>A\<close> throws at \<^verbatim>\<open>node.name.toLowerCase()\<close>, and so does
  \<^verbatim>\<open>insert\<close> with the list of that item; the tree is as it was, and the item is set
  nowhere.
\<close>

theorem insert_implicit_nameless_throws:
  "is_implicit (Node (Some ''li'') None [] [Node None (Some ''hi'') [] [] None]
       (Some \<lparr>count = Some 1, implicit = True, rvalue = 1, index = 0\<rparr>))
   \<and> item [''A''] 0 = Some ''A''
   \<and> findUnescapedTokens ''hi'' placeholder = []
   \<and> findDeepestNode (Node (Some ''li'') None [] [Node None (Some ''hi'') [] [] None]
       (Some \<lparr>count = Some 1, implicit = True, rvalue = 1, index = 0\<rparr>))
     = Node None (Some ''hi'') [] [] None
   \<and> insertContent (Node (Some ''li'') None [] [Node None (Some ''hi'') [] [] None]
       (Some \<lparr>count = Some 1, implicit = True, rvalue = 1, index = 0\<rparr>)) (Some ''A'')
     = (Node (Some ''li'') None [] [Node None (Some ''hi'') [] [] None]
          (Some \<lparr>count = Some 1, implicit = True, rvalue = 1, index = 0\<rparr>),
        Some TypeError)
   \<and> insert_tree (Node None None []
        [Node (Some ''li'') None [] [Node None (Some ''hi'') [] [] None]
           (Some \<lparr>count = Some 1, implicit = True, rvalue = 1, index = 0\<rparr>)] None)
        (Arr [''A''])
     = (Node None None []
          [Node (Some ''li'') None [] [Node None (Some ''hi'') [] [] None]
             (Some \<lparr>count = Some 1, implicit = True, rvalue = 1, index = 0\<rparr>)] None,
        Some TypeError)"
  by code_simp

end
